theory Spec2Isabelle
  imports Main "HOL-Library.Word" "HOL-Library.Signed_Division" "HOL-Library.AList"
begin

section \<open>Expression nodes\<close>

text \<open>
  The C++ type \<open>int\<close> is a 32-bit two's complement integer: a \<open>32 word\<close>, read with
  \<open>sint\<close>. Signed overflow is undefined behaviour in C++; the model takes the wrap-around
  of the two's complement machine for \<open>+\<close>, \<open>-\<close> and \<open>*\<close>.
\<close>

type_synonym cint = "32 word"

text \<open>
  The classes \<open>Constant\<close>, \<open>Variable\<close>, \<open>Add\<close>, \<open>Subtract\<close>, \<open>IntegerDivide\<close> and
  \<open>Multiply\<close>, in the order of the source. The fields \<open>left\<close> and \<open>right\<close> of \<open>BinaryOp\<close>
  are shared pointers set once by the constructor and never assigned again, so a node and
  everything below it is a finite tree.
\<close>

datatype expr =
    Constant cint
  | Variable string
  | Add expr expr
  | Subtract expr expr
  | IntegerDivide expr expr
  | Multiply expr expr

text \<open>
  The field \<open>op\<close> of \<open>BinaryOp\<close>, as each subclass constructor passes it. A leaf has
  no such field; the empty text stands for it.
\<close>

fun op :: "expr \<Rightarrow> string" where
  "op (Add l r) = ''+''"
| "op (Subtract l r) = ''-''"
| "op (IntegerDivide l r) = ''//''"
| "op (Multiply l r) = ''*''"
| "op (Constant v) = []"
| "op (Variable n) = []"

subsection \<open>Printing\<close>

text \<open>
  \<open>os << value\<close> for an \<open>int\<close>, on a stream with its default formatting flags: the decimal
  digits, most significant first, after a minus sign when the value is negative.
\<close>

definition digit_char :: "nat \<Rightarrow> char" where
  "digit_char d = char_of (48 + d)"

function dec_nat :: "nat \<Rightarrow> string" where
  "dec_nat n = (if n < 10 then [digit_char n] else dec_nat (n div 10) @ [digit_char (n mod 10)])"
  by pat_completeness auto
termination
  by (relation "measure (\<lambda>n. n)") auto

declare dec_nat.simps [simp del]

definition dec_int :: "int \<Rightarrow> string" where
  "dec_int i = (if i < 0 then CHR ''-'' # dec_nat (nat (- i)) else dec_nat (nat i))"

text \<open>
  An output stream is the text written to it so far; \<open>print\<close> takes the stream and
  returns it with the node's text appended, statement by statement as in
  \<open>Constant::print\<close>, \<open>Variable::print\<close> and \<open>BinaryOp::print\<close>.
\<close>

type_synonym ostream = string

definition BinaryOp_print ::
  "(ostream \<Rightarrow> ostream) \<Rightarrow> string \<Rightarrow> (ostream \<Rightarrow> ostream) \<Rightarrow> ostream \<Rightarrow> ostream" where
  "BinaryOp_print left_print opsym right_print os =
     (let os1 = os @ ''('';
          os2 = left_print os1;
          os3 = (os2 @ [CHR '' '']) @ opsym @ [CHR '' ''];
          os4 = right_print os3
      in os4 @ '')'')"

fun print :: "expr \<Rightarrow> ostream \<Rightarrow> ostream" where
  "print (Constant v) os = os @ dec_int (sint v)"
| "print (Variable n) os = os @ n"
| "print (Add l r) os = BinaryOp_print (print l) (op (Add l r)) (print r) os"
| "print (Subtract l r) os = BinaryOp_print (print l) (op (Subtract l r)) (print r) os"
| "print (IntegerDivide l r) os = BinaryOp_print (print l) (op (IntegerDivide l r)) (print r) os"
| "print (Multiply l r) os = BinaryOp_print (print l) (op (Multiply l r)) (print r) os"

text \<open>The rendering of a node: what \<open>print\<close> writes to an empty stream.\<close>

definition render :: "expr \<Rightarrow> string" where
  "render e = print e []"

text \<open>
  The rendering as the specification words it: constants print their numeric value,
  variables their name, and a binary operation prints as \<open>(<left> <symbol> <right>)\<close>
  with the symbols \<open>+\<close>, \<open>-\<close>, \<open>*\<close>, \<open>//\<close> for Add, Subtract, Multiply, IntegerDivide.
\<close>

fun spec_render :: "expr \<Rightarrow> string" where
  "spec_render (Constant v) = dec_int (sint v)"
| "spec_render (Variable n) = n"
| "spec_render (Add l r) = ''('' @ spec_render l @ '' + '' @ spec_render r @ '')''"
| "spec_render (Subtract l r) = ''('' @ spec_render l @ '' - '' @ spec_render r @ '')''"
| "spec_render (Multiply l r) = ''('' @ spec_render l @ '' * '' @ spec_render r @ '')''"
| "spec_render (IntegerDivide l r) = ''('' @ spec_render l @ '' // '' @ spec_render r @ '')''"

subsection \<open>Evaluation\<close>

text \<open>
  Both failures are a \<open>std::logic_error\<close>, told apart by the message. The two names of the
  specification are the two messages the source builds.
\<close>

datatype error = logic_error string

definition UndefinedVariable :: "string \<Rightarrow> error" where
  "UndefinedVariable name = logic_error (''Variable '' @ name @ '' does not exist!'')"

definition DivisionByZero :: error where
  "DivisionByZero = logic_error ''Division by zero!''"

text \<open>
  The context \<open>std::map<std::string,int>\<close> is an association list read with \<open>map_of\<close>:
  \<open>vars.contains(name)\<close> is \<open>map_of vars name \<noteq> None\<close>, and a key listed twice counts
  once, with its first value, as in a map built from an initializer list.
\<close>

type_synonym var_context = "(string \<times> cint) list"

text \<open>
  \<open>a / b\<close> on \<open>int\<close>, for \<open>b \<noteq> 0\<close>: the quotient of the two signed values by
  \<open>sdiv\<close> on \<open>int\<close>, stored back in 32 bits.
\<close>

definition int_divide :: "cint \<Rightarrow> cint \<Rightarrow> cint" where
  "int_divide a b = word_of_int (sint a sdiv sint b)"

text \<open>
  In \<open>left->evaluate(vars) + right->evaluate(vars)\<close> (and likewise for \<open>-\<close> and \<open>*\<close>) C++
  does not fix which operand is evaluated first. The choice the compiled program makes at
  a node is a parameter of the model.
\<close>

datatype order = LeftFirst | RightFirst

type_synonym sequencing = "expr \<Rightarrow> order"

definition left_to_right :: sequencing where
  "left_to_right e = LeftFirst"

definition right_to_left :: sequencing where
  "right_to_left e = RightFirst"

text \<open>
  The two operand calls of an arithmetic node, in the order chosen: an exception of the
  first call leaves before the second call is made.
\<close>

definition both_operands ::
  "order \<Rightarrow> (error + cint) \<Rightarrow> (error + cint) \<Rightarrow> (cint \<Rightarrow> cint \<Rightarrow> cint) \<Rightarrow> error + cint" where
  "both_operands ord lv rv f =
     (case ord of
        LeftFirst \<Rightarrow>
          (case lv of Inl e \<Rightarrow> Inl e
           | Inr a \<Rightarrow> (case rv of Inl e \<Rightarrow> Inl e | Inr b \<Rightarrow> Inr (f a b)))
      | RightFirst \<Rightarrow>
          (case rv of Inl e \<Rightarrow> Inl e
           | Inr b \<Rightarrow> (case lv of Inl e \<Rightarrow> Inl e | Inr a \<Rightarrow> Inr (f a b))))"

fun evaluate :: "sequencing \<Rightarrow> var_context \<Rightarrow> expr \<Rightarrow> error + cint" where
  "evaluate sq vars (Constant v) = Inr v"
| "evaluate sq vars (Variable n) =
     (if map_of vars n = None then Inl (logic_error (''Variable '' @ n @ '' does not exist!''))
      else Inr (the (map_of vars n)))"
| "evaluate sq vars (Add l r) =
     both_operands (sq (Add l r)) (evaluate sq vars l) (evaluate sq vars r) (\<lambda>a b. a + b)"
| "evaluate sq vars (Subtract l r) =
     both_operands (sq (Subtract l r)) (evaluate sq vars l) (evaluate sq vars r) (\<lambda>a b. a - b)"
| "evaluate sq vars (IntegerDivide l r) =
     (case evaluate sq vars r of
        Inl e \<Rightarrow> Inl e
      | Inr divisor \<Rightarrow>
          if divisor = 0 then Inl (logic_error ''Division by zero!'')
          else (case evaluate sq vars l of
                  Inl e \<Rightarrow> Inl e
                | Inr a \<Rightarrow> Inr (int_divide a divisor)))"
| "evaluate sq vars (Multiply l r) =
     both_operands (sq (Multiply l r)) (evaluate sq vars l) (evaluate sq vars r) (\<lambda>a b. a * b)"

text \<open>
  The nodes whose \<open>evaluate\<close> is entered during a call, in the order of entry. A node
  is reached when control gets to it: a call that throws is the last one entered.
\<close>

definition both_visited ::
  "order \<Rightarrow> (error + cint) \<Rightarrow> expr list \<Rightarrow> (error + cint) \<Rightarrow> expr list \<Rightarrow> expr list" where
  "both_visited ord lv lt rv rt =
     (case ord of
        LeftFirst \<Rightarrow> lt @ (case lv of Inl e \<Rightarrow> [] | Inr a \<Rightarrow> rt)
      | RightFirst \<Rightarrow> rt @ (case rv of Inl e \<Rightarrow> [] | Inr b \<Rightarrow> lt))"

fun visited :: "sequencing \<Rightarrow> var_context \<Rightarrow> expr \<Rightarrow> expr list" where
  "visited sq vars (Constant v) = [Constant v]"
| "visited sq vars (Variable n) = [Variable n]"
| "visited sq vars (Add l r) =
     Add l r # both_visited (sq (Add l r)) (evaluate sq vars l) (visited sq vars l)
                 (evaluate sq vars r) (visited sq vars r)"
| "visited sq vars (Subtract l r) =
     Subtract l r # both_visited (sq (Subtract l r)) (evaluate sq vars l) (visited sq vars l)
                      (evaluate sq vars r) (visited sq vars r)"
| "visited sq vars (IntegerDivide l r) =
     IntegerDivide l r # visited sq vars r @
       (case evaluate sq vars r of
          Inl e \<Rightarrow> []
        | Inr divisor \<Rightarrow> if divisor = 0 then [] else visited sq vars l)"
| "visited sq vars (Multiply l r) =
     Multiply l r # both_visited (sq (Multiply l r)) (evaluate sq vars l) (visited sq vars l)
                      (evaluate sq vars r) (visited sq vars r)"

text \<open>A \<open>Variable\<close> node whose name the context lacks.\<close>

fun missing_variable :: "var_context \<Rightarrow> string \<Rightarrow> expr \<Rightarrow> bool" where
  "missing_variable vars name (Variable n) = (n = name \<and> map_of vars n = None)"
| "missing_variable vars name e = False"

text \<open>An \<open>IntegerDivide\<close> node whose right operand evaluates to 0.\<close>

fun zero_divisor :: "sequencing \<Rightarrow> var_context \<Rightarrow> expr \<Rightarrow> bool" where
  "zero_divisor sq vars (IntegerDivide l r) = (evaluate sq vars r = Inr 0)"
| "zero_divisor sq vars e = False"

section \<open>The expression factory\<close>

subsection \<open>Shared and weak pointers\<close>

text \<open>
  \<open>std::make_shared\<close> allocates an object together with its control block. A cell is
  that allocation: the object and \<open>use_count\<close>, the number of \<open>shared_ptr\<close> values that
  own it. The object is destroyed when the count falls to 0; the control block stays for
  the weak pointers that still name it. Memory is the list of all allocations made so
  far, and a pointer is the index of its allocation, so a later allocation never takes
  the identity of an earlier one.
\<close>

record cell =
  obj :: expr
  use_count :: nat

type_synonym memory = "cell list"

type_synonym shared_ptr = nat

text \<open>A \<open>weak_ptr\<close> names an allocation or is empty, as a default-constructed one is.\<close>

type_synonym weak_ptr = "nat option"

definition live :: "memory \<Rightarrow> nat \<Rightarrow> bool" where
  "live m a = (a < length m \<and> 0 < use_count (m ! a))"

definition expired :: "memory \<Rightarrow> weak_ptr \<Rightarrow> bool" where
  "expired m wp = (case wp of None \<Rightarrow> True | Some a \<Rightarrow> \<not> live m a)"

text \<open>Copying a \<open>shared_ptr\<close> adds an owner; destroying one removes an owner.\<close>

definition acquire :: "shared_ptr \<Rightarrow> memory \<Rightarrow> memory" where
  "acquire a m = (if a < length m then m[a := (m ! a)\<lparr>use_count := Suc (use_count (m ! a))\<rparr>] else m)"

definition release :: "shared_ptr \<Rightarrow> memory \<Rightarrow> memory" where
  "release a m = (if a < length m then m[a := (m ! a)\<lparr>use_count := use_count (m ! a) - 1\<rparr>] else m)"

text \<open>
  \<open>wp.lock()\<close>: an owning pointer to the object when it is still alive, and the empty
  pointer (\<open>None\<close>) otherwise.
\<close>

definition lock :: "weak_ptr \<Rightarrow> memory \<Rightarrow> shared_ptr option \<times> memory" where
  "lock wp m = (if expired m wp then (None, m) else (wp, acquire (the wp) m))"

definition make_shared :: "expr \<Rightarrow> memory \<Rightarrow> shared_ptr \<times> memory" where
  "make_shared e m = (length m, m @ [\<lparr>obj = e, use_count = 1\<rparr>])"

subsection \<open>The pools\<close>

text \<open>
  A pool \<open>std::map<K, std::weak_ptr<...>>\<close> is an association list with one entry per key.
  The key order of \<open>std::map\<close> is left out: the factory looks entries up by key and
  \<open>prune\<close> visits all of them.
\<close>

type_synonym 'k pool = "('k \<times> weak_ptr) list"

text \<open>
  \<open>pool[k]\<close>: the entry of \<open>k\<close>, inserted with an empty weak pointer when the key is
  absent. The result is the weak pointer found there and the pool after the call.
\<close>

definition subscript :: "'k pool \<Rightarrow> 'k \<Rightarrow> weak_ptr \<times> 'k pool" where
  "subscript pool k =
     (case map_of pool k of
        Some wp \<Rightarrow> (wp, pool)
      | None \<Rightarrow> (None, pool @ [(k, None)]))"

text \<open>The loop of \<open>prune\<close>: an expired entry is erased, any other one is stepped over.\<close>

fun prune :: "memory \<Rightarrow> 'k pool \<Rightarrow> 'k pool" where
  "prune m [] = []"
| "prune m ((k, wp) # rest) =
     (if expired m wp then prune m rest else (k, wp) # prune m rest)"

text \<open>
  The state the factory works on: the allocations and the two pools of the singleton.
\<close>

record state =
  memory :: memory
  constPool :: "cint pool"
  varPool :: "string pool"

definition initial :: state where
  "initial = \<lparr>memory = [], constPool = [], varPool = []\<rparr>"

definition getConstant :: "cint \<Rightarrow> state \<Rightarrow> shared_ptr \<times> state" where
  "getConstant v s =
     (let pool1 = prune (memory s) (constPool s);
          (wp, pool2) = subscript pool1 v
      in case lock wp (memory s) of
           (Some sp, m1) \<Rightarrow> (sp, s\<lparr>memory := m1, constPool := pool2\<rparr>)
         | (None, m1) \<Rightarrow>
             (let (sp, m2) = make_shared (Constant v) m1;
                  pool3 = AList.update v (Some sp) pool2
              in (sp, s\<lparr>memory := m2, constPool := pool3\<rparr>)))"

definition getVariable :: "string \<Rightarrow> state \<Rightarrow> shared_ptr \<times> state" where
  "getVariable name s =
     (let pool1 = prune (memory s) (varPool s);
          (wp, pool2) = subscript pool1 name
      in case lock wp (memory s) of
           (Some sp, m1) \<Rightarrow> (sp, s\<lparr>memory := m1, varPool := pool2\<rparr>)
         | (None, m1) \<Rightarrow>
             (let (sp, m2) = make_shared (Variable name) m1;
                  pool3 = AList.update name (Some sp) pool2
              in (sp, s\<lparr>memory := m2, varPool := pool3\<rparr>)))"

subsection \<open>The owners outside the factory\<close>

text \<open>
  The \<open>ExprPtr\<close> values that exist outside the factory (locals of the caller and the
  \<open>left\<close> and \<open>right\<close> fields of composite nodes) are a list of pointers, one element per
  owner. A caller obtains one from the factory, copies one it holds (building a
  composite node copies both operands) or destroys one it holds (a local going out of
  scope, a composite node being destroyed).
\<close>

datatype request =
    GetConstant cint
  | GetVariable string
  | Copy shared_ptr
  | Release shared_ptr

fun step :: "shared_ptr list \<times> state \<Rightarrow> request \<Rightarrow> shared_ptr list \<times> state" where
  "step (owners, s) (GetConstant v) = (let (sp, s1) = getConstant v s in (sp # owners, s1))"
| "step (owners, s) (GetVariable n) = (let (sp, s1) = getVariable n s in (sp # owners, s1))"
| "step (owners, s) (Copy a) =
     (if a \<in> set owners then (a # owners, s\<lparr>memory := acquire a (memory s)\<rparr>) else (owners, s))"
| "step (owners, s) (Release a) =
     (if a \<in> set owners then (remove1 a owners, s\<lparr>memory := release a (memory s)\<rparr>)
      else (owners, s))"

definition run_from :: "shared_ptr list \<times> state \<Rightarrow> request list \<Rightarrow> shared_ptr list \<times> state" where
  "run_from c reqs = foldl step c reqs"

text \<open>
  What a program has after a sequence of requests, from its start: no owner, no
  allocation and both pools empty.
\<close>

definition run :: "request list \<Rightarrow> shared_ptr list \<times> state" where
  "run reqs = run_from ([], initial) reqs"

subsection \<open>The operation \<open>get\<close> of the specification\<close>

text \<open>
  The specification speaks of one operation \<open>get(key)\<close> per node kind. A key is the
  integer of a constant or the name of a variable; \<open>get\<close> is \<open>getConstant\<close> on the first
  and \<open>getVariable\<close> on the second.
\<close>

datatype key = ConstantKey cint | VariableKey string

fun get :: "key \<Rightarrow> state \<Rightarrow> shared_ptr \<times> state" where
  "get (ConstantKey v) s = getConstant v s"
| "get (VariableKey n) s = getVariable n s"

text \<open>The request that calls \<open>get\<close> on a key, and the node \<open>get\<close> constructs for it.\<close>

fun get_request :: "key \<Rightarrow> request" where
  "get_request (ConstantKey v) = GetConstant v"
| "get_request (VariableKey n) = GetVariable n"

fun node_of :: "key \<Rightarrow> expr" where
  "node_of (ConstantKey v) = Constant v"
| "node_of (VariableKey n) = Variable n"

text \<open>The entry of a key in the pool of its kind, and all weak pointers of that pool.\<close>

fun pool_entry :: "state \<Rightarrow> key \<Rightarrow> weak_ptr option" where
  "pool_entry s (ConstantKey v) = map_of (constPool s) v"
| "pool_entry s (VariableKey n) = map_of (varPool s) n"

fun pool_entries :: "state \<Rightarrow> key \<Rightarrow> weak_ptr list" where
  "pool_entries s (ConstantKey v) = map snd (constPool s)"
| "pool_entries s (VariableKey n) = map snd (varPool s)"

subsection \<open>Invariants\<close>

text \<open>
  \<open>getConstant\<close> and \<open>getVariable\<close> are the same statements on different pools; this is
  their common shape, with the constructor of the node as a parameter.
\<close>

definition pool_get :: "('k \<Rightarrow> expr) \<Rightarrow> 'k \<Rightarrow> memory \<Rightarrow> 'k pool \<Rightarrow> shared_ptr \<times> memory \<times> 'k pool" where
  "pool_get mk k m pool =
     (let pool1 = prune m pool;
          (wp, pool2) = subscript pool1 k
      in case lock wp m of
           (Some sp, m1) \<Rightarrow> (sp, m1, pool2)
         | (None, m1) \<Rightarrow>
             (let (sp, m2) = make_shared (mk k) m1
              in (sp, m2, AList.update k (Some sp) pool2)))"

text \<open>
  A pool is consistent with memory when its keys are distinct, every entry that names an
  allocation names one that holds the node of the entry's key, and every living node
  built for a key is the one the entry of that key names.
\<close>

definition pool_inv :: "('k \<Rightarrow> expr) \<Rightarrow> memory \<Rightarrow> 'k pool \<Rightarrow> bool" where
  "pool_inv mk m pool =
     (distinct (map fst pool) \<and>
      (\<forall>(k, wp) \<in> set pool. case wp of None \<Rightarrow> True | Some a \<Rightarrow> a < length m \<and> obj (m ! a) = mk k) \<and>
      (\<forall>a < length m. \<forall>k. live m a \<and> obj (m ! a) = mk k \<longrightarrow> map_of pool k = Some (Some a)))"

fun leaf :: "expr \<Rightarrow> bool" where
  "leaf (Constant v) = True"
| "leaf (Variable n) = True"
| "leaf e = False"

definition factory_inv :: "state \<Rightarrow> bool" where
  "factory_inv s =
     (pool_inv Constant (memory s) (constPool s) \<and>
      pool_inv Variable (memory s) (varPool s) \<and>
      (\<forall>a < length (memory s). leaf (obj (memory s ! a))))"

text \<open>Every owner holds an allocated node, and \<open>use_count\<close> counts the owners.\<close>

definition owners_inv :: "shared_ptr list \<Rightarrow> memory \<Rightarrow> bool" where
  "owners_inv owners m =
     ((\<forall>a \<in> set owners. a < length m) \<and>
      (\<forall>a < length m. use_count (m ! a) = count_list owners a))"

definition client_inv :: "shared_ptr list \<times> state \<Rightarrow> bool" where
  "client_inv c = (factory_inv (snd c) \<and> owners_inv (fst c) (memory (snd c)))"

section \<open>Properties of the expression nodes\<close>

subsection \<open>Auxiliary facts\<close>

lemma sint_int_divide:
  assumes "\<not> (sint a = - (2 ^ 31) \<and> sint b = - 1)"
  shows "sint (int_divide a b) = sint a sdiv sint b"
proof -
  have ra: "- (2 ^ 31) \<le> sint a" "sint a < 2 ^ 31"
    using sint_ge [of a] sint_lt [of a] by simp_all
  define k where "k = sint a sdiv sint b"
  from sdiv_int_range [of "sint a" "sint b"] have kr: "- \<bar>sint a\<bar> \<le> k" "k \<le> \<bar>sint a\<bar>"
    by (simp_all add: k_def)
  have "k \<noteq> 2 ^ 31"
  proof
    assume e: "k = 2 ^ 31"
    with kr(2) ra have sa: "sint a = - (2 ^ 31)" by simp
    then have "sint a \<noteq> 0" by simp
    moreover from e sa have "sint a sdiv sint b = - sint a" by (simp add: k_def)
    ultimately have "sint b = - 1" by simp
    with sa assms show False by simp
  qed
  with kr ra have "- (2 ^ 31) \<le> k" "k < 2 ^ 31" by simp_all
  then have "signed_take_bit 31 k = k" by (intro signed_take_bit_int_eq_self) simp_all
  then show ?thesis by (simp add: int_divide_def k_def sint_sbintrunc')
qed

lemma trunc_quotient:
  fixes a b :: int
  assumes "b \<noteq> 0"
  shows "\<bar>a sdiv b\<bar> = \<bar>a\<bar> div \<bar>b\<bar>" 
    and "\<bar>a sdiv b\<bar> * \<bar>b\<bar> \<le> \<bar>a\<bar>" and "\<bar>a\<bar> < (\<bar>a sdiv b\<bar> + 1) * \<bar>b\<bar>"
proof -
  have "0 \<le> \<bar>a\<bar> div \<bar>b\<bar>" using assms by (simp add: pos_imp_zdiv_nonneg_iff)
  then show q: "\<bar>a sdiv b\<bar> = \<bar>a\<bar> div \<bar>b\<bar>"
    using assms by (cases "a = 0") (simp_all add: signed_divide_int_def abs_mult)
  from assms have p: "0 < \<bar>b\<bar>" by simp
  have d: "\<bar>a\<bar> = (\<bar>a\<bar> div \<bar>b\<bar>) * \<bar>b\<bar> + \<bar>a\<bar> mod \<bar>b\<bar>" by simp
  from p have m: "0 \<le> \<bar>a\<bar> mod \<bar>b\<bar>" "\<bar>a\<bar> mod \<bar>b\<bar> < \<bar>b\<bar>" by simp_all
  from d m(1) show "\<bar>a sdiv b\<bar> * \<bar>b\<bar> \<le> \<bar>a\<bar>" unfolding q by linarith
  have "(\<bar>a sdiv b\<bar> + 1) * \<bar>b\<bar> = (\<bar>a\<bar> div \<bar>b\<bar>) * \<bar>b\<bar> + \<bar>b\<bar>"
    by (simp add: q distrib_right)
  with d m(2) show "\<bar>a\<bar> < (\<bar>a sdiv b\<bar> + 1) * \<bar>b\<bar>" by linarith
qed

lemma UndefinedVariable_inject: "(UndefinedVariable n = UndefinedVariable m) = (n = m)"
  by (simp add: UndefinedVariable_def)

lemma UndefinedVariable_not_DivisionByZero: "UndefinedVariable n \<noteq> DivisionByZero"
  by (simp add: DivisionByZero_def UndefinedVariable_def)

lemma evaluate_error_kinds:
  "evaluate sq vars e = Inl err \<Longrightarrow> err = DivisionByZero \<or> (\<exists>n. err = UndefinedVariable n)"
  by (induction e arbitrary: err)
     (auto simp: both_operands_def DivisionByZero_def UndefinedVariable_def
           split: order.splits sum.splits if_splits)

lemma visited_self: "e \<in> set (visited sq vars e)"
  by (cases e) simp_all

lemma error_propagates:
  "x \<in> set (visited sq vars e) \<Longrightarrow> evaluate sq vars x = Inl err \<Longrightarrow> evaluate sq vars e = Inl err"
proof (induction e)
  case (Constant v) then show ?case by simp
next
  case (Variable n) then show ?case by simp
next
  case (Add l r) then show ?case
    by (auto simp: both_operands_def both_visited_def split: order.splits sum.splits if_splits)
next
  case (Subtract l r) then show ?case
    by (auto simp: both_operands_def both_visited_def split: order.splits sum.splits if_splits)
next
  case (IntegerDivide l r) then show ?case
    by (auto simp: both_operands_def both_visited_def split: order.splits sum.splits if_splits)
next
  case (Multiply l r) then show ?case
    by (auto simp: both_operands_def both_visited_def split: order.splits sum.splits if_splits)
qed

lemma error_origin:
  "evaluate sq vars e = Inl err \<Longrightarrow>
   (\<exists>x\<in>set (visited sq vars e).
      (\<exists>n. err = UndefinedVariable n \<and> missing_variable vars n x) \<or>
      (err = DivisionByZero \<and> zero_divisor sq vars x))"
proof (induction e)
  case (Constant v) then show ?case by simp
next
  case (Variable n) then show ?case by (auto simp: UndefinedVariable_def split: if_splits)
next
  case (Add l r) then show ?case
    by (auto simp: both_operands_def both_visited_def split: order.splits sum.splits if_splits)
next
  case (Subtract l r) then show ?case
    by (auto simp: both_operands_def both_visited_def split: order.splits sum.splits if_splits)
next
  case (IntegerDivide l r) then show ?case
    by (auto simp: DivisionByZero_def split: order.splits sum.splits if_splits)
next
  case (Multiply l r) then show ?case
    by (auto simp: both_operands_def both_visited_def split: order.splits sum.splits if_splits)
qed

lemma missing_variable_fails:
  "missing_variable vars n x \<Longrightarrow> evaluate sq vars x = Inl (UndefinedVariable n)"
  by (cases x) (simp_all add: UndefinedVariable_def)

lemma zero_divisor_fails:
  "zero_divisor sq vars x \<Longrightarrow> evaluate sq vars x = Inl DivisionByZero"
  by (cases x) (simp_all add: DivisionByZero_def)

lemma print_appends: "print e os = os @ spec_render e"
  by (induction e arbitrary: os) (simp_all add: BinaryOp_print_def)

section \<open>Properties of the factory\<close>

subsection \<open>The common shape of the two getters\<close>

lemma prune_filter: "prune m pool = filter (\<lambda>(k, wp). \<not> expired m wp) pool"
  by (induction m pool rule: prune.induct) auto

lemma getConstant_pool_get:
  "getConstant v s =
     (case pool_get Constant v (memory s) (constPool s) of
        (sp, m, p) \<Rightarrow> (sp, s\<lparr>memory := m, constPool := p\<rparr>))"
  by (simp add: getConstant_def pool_get_def Let_def split: prod.splits option.splits)

lemma getVariable_pool_get:
  "getVariable n s =
     (case pool_get Variable n (memory s) (varPool s) of
        (sp, m, p) \<Rightarrow> (sp, s\<lparr>memory := m, varPool := p\<rparr>))"
  by (simp add: getVariable_def pool_get_def Let_def split: prod.splits option.splits)

lemma prune_not_expired: "(k, wp) \<in> set (prune m pool) \<Longrightarrow> \<not> expired m wp"
  by (auto simp: prune_filter)

lemma map_of_prune_live:
  assumes "map_of (prune m pool) k = Some wp"
  shows "\<exists>a. wp = Some a \<and> live m a"
proof -
  from assms have "(k, wp) \<in> set (prune m pool)" by (rule map_of_SomeD)
  then have "\<not> expired m wp" by (rule prune_not_expired)
  then show ?thesis by (cases wp) (simp_all add: expired_def)
qed

lemma update_append_last:
  "map_of xs k = None \<Longrightarrow> AList.update k v (xs @ [(k, w)]) = xs @ [(k, v)]"
  by (induction xs) (auto split: if_splits)

lemma pool_get_hit:
  assumes "map_of (prune m pool) k = Some (Some a)"
  shows "pool_get mk k m pool = (a, acquire a m, prune m pool)"
proof -
  from map_of_prune_live [OF assms] have "live m a" by simp
  then have "\<not> expired m (Some a)" by (simp add: expired_def)
  with assms show ?thesis
    by (simp add: pool_get_def subscript_def lock_def)
qed

lemma pool_get_miss:
  assumes "map_of (prune m pool) k = None"
  shows "pool_get mk k m pool =
           (length m, m @ [\<lparr>obj = mk k, use_count = 1\<rparr>], prune m pool @ [(k, Some (length m))])"
  using assms
  by (simp add: pool_get_def subscript_def lock_def expired_def make_shared_def update_append_last)

lemma pool_get_cases:
  obtains (hit) a where "map_of (prune m pool) k = Some (Some a)" "live m a"
      "pool_get mk k m pool = (a, acquire a m, prune m pool)"
  | (miss) "map_of (prune m pool) k = None"
      "pool_get mk k m pool =
         (length m, m @ [\<lparr>obj = mk k, use_count = 1\<rparr>], prune m pool @ [(k, Some (length m))])"
proof (cases "map_of (prune m pool) k")
  case None
  show ?thesis by (rule miss [OF None pool_get_miss [OF None]])
next
  case (Some wp)
  from map_of_prune_live [OF Some] obtain a where a: "wp = Some a" "live m a" by auto
  with Some have s: "map_of (prune m pool) k = Some (Some a)" by simp
  show ?thesis by (rule hit [OF s a(2) pool_get_hit [OF s]])
qed




lemma length_acquire [simp]: "length (acquire a m) = length m"
  by (simp add: acquire_def)

lemma length_release [simp]: "length (release a m) = length m"
  by (simp add: release_def)

lemma obj_acquire [simp]: "obj (acquire a m ! b) = obj (m ! b)"
  by (cases "b = a") (simp_all add: acquire_def)

lemma obj_release [simp]: "obj (release a m ! b) = obj (m ! b)"
  by (cases "b = a") (simp_all add: release_def)

lemma use_count_acquire:
  "b < length m \<Longrightarrow>
   use_count (acquire a m ! b) = (if b = a then Suc (use_count (m ! b)) else use_count (m ! b))"
  by (simp add: acquire_def)

lemma use_count_release:
  "b < length m \<Longrightarrow>
   use_count (release a m ! b) = (if b = a then use_count (m ! b) - 1 else use_count (m ! b))"
  by (simp add: release_def)

lemma live_acquire: "live m a \<Longrightarrow> live (acquire a m) b = live m b"
  by (cases "b < length m") (auto simp: live_def use_count_acquire)

lemma live_release: "live (release a m) b \<Longrightarrow> live m b"
  by (cases "b < length m") (auto simp: live_def use_count_release split: if_splits)

lemma live_append: "live (m @ [c]) b = (live m b \<or> (b = length m \<and> 0 < use_count c))"
proof (cases "b < length m")
  case True
  then show ?thesis by (simp add: live_def nth_append)
next
  case False
  then show ?thesis by (cases "b = length m") (simp_all add: live_def nth_append)
qed

subsection \<open>Preservation of the pool invariant\<close>

lemma pool_inv_same_objects:
  assumes "pool_inv mk m pool" "length m' = length m"
    and o: "\<And>b. obj (m' ! b) = obj (m ! b)" and l: "\<And>b. live m' b \<Longrightarrow> live m b"
  shows "pool_inv mk m' pool"
proof -
  have e: "case wp of None \<Rightarrow> True | Some a \<Rightarrow> a < length m' \<and> obj (m' ! a) = mk k"
    if "(k, wp) \<in> set pool" for k wp
  proof -
    from assms(1) that
    have "case wp of None \<Rightarrow> True | Some a \<Rightarrow> a < length m \<and> obj (m ! a) = mk k"
      unfolding pool_inv_def by blast
    then show ?thesis by (cases wp) (simp_all add: assms(2) o)
  qed
  have r: "map_of pool k = Some (Some a)" if "a < length m'" "live m' a" "obj (m' ! a) = mk k" for a k
  proof -
    from that have "a < length m" "live m a" "obj (m ! a) = mk k"
      using assms(2) l o by simp_all
    with assms(1) show ?thesis by (simp add: pool_inv_def)
  qed
  from assms(1) have "distinct (map fst pool)" by (simp add: pool_inv_def)
  with e r show ?thesis unfolding pool_inv_def by blast
qed

lemma pool_inv_prune:
  assumes "pool_inv mk m pool"
  shows "pool_inv mk m (prune m pool)"
proof -
  have d: "distinct (map fst (prune m pool))"
    using assms by (simp add: pool_inv_def prune_filter distinct_map_filter)
  have r: "map_of (prune m pool) k = Some (Some a)"
    if "a < length m" "live m a" "obj (m ! a) = mk k" for a k
  proof -
    from assms that have "map_of pool k = Some (Some a)" by (simp add: pool_inv_def)
    moreover from that have "\<not> expired m (Some a)" by (simp add: expired_def)
    ultimately show ?thesis unfolding prune_filter by (rule map_of_filter_in)
  qed
  from assms have e: "\<forall>(k, wp) \<in> set (prune m pool).
      case wp of None \<Rightarrow> True | Some a \<Rightarrow> a < length m \<and> obj (m ! a) = mk k"
    by (simp add: pool_inv_def prune_filter)
  from d e r show ?thesis unfolding pool_inv_def by blast
qed

lemma pool_inv_new_node:
  assumes "pool_inv mk m pool" "map_of pool k = None" "inj mk"
  shows "pool_inv mk (m @ [\<lparr>obj = mk k, use_count = 1\<rparr>]) (pool @ [(k, Some (length m))])"
proof -
  let ?m = "m @ [\<lparr>obj = mk k, use_count = 1\<rparr>]"
  from assms(2) have "k \<notin> fst ` set pool" by (simp add: map_of_eq_None_iff)
  with assms(1) have d: "distinct (map fst (pool @ [(k, Some (length m))]))"
    by (simp add: pool_inv_def)
  have e: "case wp of None \<Rightarrow> True | Some a \<Rightarrow> a < length ?m \<and> obj (?m ! a) = mk k'"
    if "(k', wp) \<in> set (pool @ [(k, Some (length m))])" for k' wp
  proof (cases "(k', wp) \<in> set pool")
    case True
    with assms(1) have "case wp of None \<Rightarrow> True | Some a \<Rightarrow> a < length m \<and> obj (m ! a) = mk k'"
      unfolding pool_inv_def by blast
    then show ?thesis by (cases wp) (simp_all add: nth_append)
  next
    case False
    with that have "k' = k" "wp = Some (length m)" by simp_all
    then show ?thesis by simp
  qed
  have r: "map_of (pool @ [(k, Some (length m))]) k' = Some (Some a)"
    if "live ?m a" "obj (?m ! a) = mk k'" for a k'
  proof (cases "a < length m")
    case True
    with that have "live m a" "obj (m ! a) = mk k'" by (simp_all add: live_append nth_append)
    with assms(1) True have "map_of pool k' = Some (Some a)" by (simp add: pool_inv_def)
    then show ?thesis by (simp add: map_add_def)
  next
    case False
    with that(1) have a: "a = length m" by (simp add: live_append live_def)
    with that(2) have "mk k = mk k'" by simp
    with assms(3) have "k' = k" by (simp add: inj_eq)
    with assms(2) a show ?thesis by (simp add: map_add_def)
  qed
  from d e r show ?thesis unfolding pool_inv_def by blast
qed

lemma pool_inv_foreign_node:
  assumes "pool_inv mk m pool" "\<And>k. mk k \<noteq> e"
  shows "pool_inv mk (m @ [\<lparr>obj = e, use_count = 1\<rparr>]) pool"
proof -
  let ?m = "m @ [\<lparr>obj = e, use_count = 1\<rparr>]"
  have e: "case wp of None \<Rightarrow> True | Some a \<Rightarrow> a < length ?m \<and> obj (?m ! a) = mk k'"
    if "(k', wp) \<in> set pool" for k' wp
  proof -
    from assms(1) that
    have "case wp of None \<Rightarrow> True | Some a \<Rightarrow> a < length m \<and> obj (m ! a) = mk k'"
      unfolding pool_inv_def by blast
    then show ?thesis by (cases wp) (simp_all add: nth_append)
  qed
  have r: "map_of pool k' = Some (Some a)" if "live ?m a" "obj (?m ! a) = mk k'" for a k'
  proof (cases "a < length m")
    case True
    with that have "live m a" "obj (m ! a) = mk k'" by (simp_all add: live_append nth_append)
    with assms(1) True show ?thesis by (simp add: pool_inv_def)
  next
    case False
    with that(1) have "a = length m" by (simp add: live_append live_def)
    with that(2) have "mk k' = e" by simp
    with assms(2) [of k'] show ?thesis by simp
  qed
  from assms(1) have "distinct (map fst pool)" by (simp add: pool_inv_def)
  with e r show ?thesis unfolding pool_inv_def by blast
qed

lemma pool_get_elim:
  assumes "pool_get mk k m pool = (a, m', pool')"
  obtains (hit) "map_of (prune m pool) k = Some (Some a)" "live m a"
      "m' = acquire a m" "pool' = prune m pool"
  | (miss) "map_of (prune m pool) k = None" "a = length m"
      "m' = m @ [\<lparr>obj = mk k, use_count = 1\<rparr>]" "pool' = prune m pool @ [(k, Some (length m))]"
proof (cases rule: pool_get_cases [of m pool k mk])
  case (hit b)
  from hit(3) assms have "(a, m', pool') = (b, acquire b m, prune m pool)" by simp
  then have "b = a" "m' = acquire a m" "pool' = prune m pool" by simp_all
  with hit(1,2) show ?thesis using that(1) by simp
next
  case miss
  from miss(2) assms
  have "(a, m', pool') =
          (length m, m @ [\<lparr>obj = mk k, use_count = 1\<rparr>], prune m pool @ [(k, Some (length m))])"
    by simp
  then have "a = length m" "m' = m @ [\<lparr>obj = mk k, use_count = 1\<rparr>]"
    "pool' = prune m pool @ [(k, Some (length m))]" by simp_all
  with miss(1) show ?thesis using that(2) by simp
qed

lemma pool_get_inv:
  assumes "pool_inv mk m pool" "inj mk" "pool_get mk k m pool = (a, m', pool')"
  shows "pool_inv mk m' pool'"
  using assms(3)
proof (cases rule: pool_get_elim)
  case hit
  have "pool_inv mk m (prune m pool)" using assms(1) by (rule pool_inv_prune)
  then show ?thesis unfolding hit(3,4)
    by (rule pool_inv_same_objects) (simp_all add: live_acquire [OF hit(2)])
next
  case miss
  have "pool_inv mk m (prune m pool)" using assms(1) by (rule pool_inv_prune)
  from pool_inv_new_node [OF this miss(1) assms(2)] show ?thesis unfolding miss(3,4) .
qed

lemma pool_get_inv_other:
  assumes "pool_inv mk2 m pool2" "\<And>k'. mk2 k' \<noteq> mk k" "pool_get mk k m pool = (a, m', pool')"
  shows "pool_inv mk2 m' pool2"
  using assms(3)
proof (cases rule: pool_get_elim)
  case hit
  from assms(1) show ?thesis unfolding hit(3)
    by (rule pool_inv_same_objects) (simp_all add: live_acquire [OF hit(2)])
next
  case miss
  from assms(1,2) show ?thesis unfolding miss(3) by (rule pool_inv_foreign_node)
qed

lemma pool_get_leaves:
  assumes "\<forall>b<length m. leaf (obj (m ! b))" "leaf (mk k)" "pool_get mk k m pool = (a, m', pool')"
  shows "\<forall>b<length m'. leaf (obj (m' ! b))"
  using assms(3)
proof (cases rule: pool_get_elim)
  case hit
  from assms(1) show ?thesis unfolding hit(3) by simp
next
  case miss
  from assms(1,2) show ?thesis unfolding miss(3) by (simp add: nth_append less_Suc_eq)
qed

lemma pool_get_owners:
  assumes "owners_inv owners m" "pool_get mk k m pool = (a, m', pool')"
  shows "owners_inv (a # owners) m'"
  using assms(2)
proof (cases rule: pool_get_elim)
  case hit
  from hit(2) have "a < length m" by (simp add: live_def)
  with assms(1) show ?thesis unfolding hit(3) owners_inv_def
    by (simp add: use_count_acquire)
next
  case miss
  note eq = miss(2,3)
  from assms(1) have "length m \<notin> set owners" unfolding owners_inv_def by auto
  then have c: "count_list owners (length m) = 0" by simp
  have u: "use_count (m' ! b) = count_list (a # owners) b" if "b < length m'" for b
  proof (cases "b < length m")
    case True
    with assms(1) show ?thesis unfolding eq owners_inv_def by (simp add: nth_append)
  next
    case False
    with that have "b = length m" unfolding eq by simp
    then show ?thesis unfolding eq by (simp add: c)
  qed
  have "\<forall>b\<in>set (a # owners). b < length m'"
    using assms(1) unfolding eq owners_inv_def by (simp add: less_Suc_eq)
  with u show ?thesis unfolding owners_inv_def by blast
qed

lemma pool_get_result:
  assumes "pool_get mk k m pool = (a, m', pool')"
  shows "map_of pool' k = Some (Some a) \<and> live m' a \<and> (\<forall>(k', wp) \<in> set pool'. \<not> expired m' wp)"
  using assms
proof (cases rule: pool_get_elim)
  case hit
  note eq = hit(3,4)
  have "\<not> expired (acquire a m) wp" if "(k', wp) \<in> set (prune m pool)" for k' wp
    using prune_not_expired [OF that]
    by (cases wp) (simp_all add: expired_def live_acquire [OF hit(2)])
  with hit(1,2) show ?thesis unfolding eq by (auto simp: live_acquire)
next
  case miss
  let ?c = "\<lparr>obj = mk k, use_count = 1\<rparr>"
  note eq = miss(2,3,4)
  have "\<not> expired (m @ [?c]) wp" if "(k', wp) \<in> set (prune m pool)" for k' wp
    using prune_not_expired [OF that]
    by (cases wp) (simp_all add: expired_def live_append)
  moreover have "\<not> expired (m @ [?c]) (Some (length m))"
    by (simp add: expired_def live_append)
  ultimately have "\<forall>(k', wp) \<in> set pool'. \<not> expired m' wp" unfolding eq by auto
  with miss(1) show ?thesis unfolding eq by (simp add: map_add_def live_append)
qed

lemma pool_get_obj:
  assumes "pool_inv mk m pool" "pool_get mk k m pool = (a, m', pool')"
  shows "obj (m' ! a) = mk k"
  using assms(2)
proof (cases rule: pool_get_elim)
  case hit
  from hit(1) have "(k, Some a) \<in> set (prune m pool)" by (rule map_of_SomeD)
  then have "(k, Some a) \<in> set pool" by (simp add: prune_filter)
  with assms(1) have "case Some a of None \<Rightarrow> True | Some a \<Rightarrow> a < length m \<and> obj (m ! a) = mk k"
    unfolding pool_inv_def by blast
  then show ?thesis unfolding hit(3) by simp
next
  case miss
  then show ?thesis by simp
qed

lemma count_list_remove1:
  "count_list (remove1 a xs) b = (if a = b \<and> a \<in> set xs then count_list xs b - 1 else count_list xs b)"
  by (induction xs) auto

lemma owners_inv_copy:
  assumes "owners_inv owners m" "a \<in> set owners"
  shows "owners_inv (a # owners) (acquire a m)"
  using assms unfolding owners_inv_def by (simp add: use_count_acquire)

lemma owners_inv_release:
  assumes "owners_inv owners m" "a \<in> set owners"
  shows "owners_inv (remove1 a owners) (release a m)"
proof -
  have "\<forall>b\<in>set (remove1 a owners). b < length (release a m)"
    using assms(1) unfolding owners_inv_def by (auto dest: notin_set_remove1)
  moreover have "\<forall>b<length (release a m). use_count (release a m ! b) = count_list (remove1 a owners) b"
    using assms unfolding owners_inv_def by (simp add: use_count_release count_list_remove1)
  ultimately show ?thesis unfolding owners_inv_def by blast
qed

lemma owners_inv_live: "owners_inv owners m \<Longrightarrow> a < length m \<Longrightarrow> live m a = (a \<in> set owners)"
  using count_list_0_iff [of owners a] unfolding owners_inv_def live_def by auto

subsection \<open>Invariants of every reachable state\<close>

lemma getConstant_elim:
  assumes "getConstant v s = (a, s')"
  obtains m' p' where "pool_get Constant v (memory s) (constPool s) = (a, m', p')"
    "s' = s\<lparr>memory := m', constPool := p'\<rparr>"
proof -
  obtain b m' p' where pg: "pool_get Constant v (memory s) (constPool s) = (b, m', p')"
    by (cases "pool_get Constant v (memory s) (constPool s)")
  with assms have "a = b" "s' = s\<lparr>memory := m', constPool := p'\<rparr>"
    by (simp_all add: getConstant_pool_get)
  with pg show ?thesis using that by simp
qed

lemma getVariable_elim:
  assumes "getVariable n s = (a, s')"
  obtains m' p' where "pool_get Variable n (memory s) (varPool s) = (a, m', p')"
    "s' = s\<lparr>memory := m', varPool := p'\<rparr>"
proof -
  obtain b m' p' where pg: "pool_get Variable n (memory s) (varPool s) = (b, m', p')"
    by (cases "pool_get Variable n (memory s) (varPool s)")
  with assms have "a = b" "s' = s\<lparr>memory := m', varPool := p'\<rparr>"
    by (simp_all add: getVariable_pool_get)
  with pg show ?thesis using that by simp
qed

lemma factory_inv_getConstant:
  assumes "factory_inv s" "getConstant v s = (a, s')"
  shows "factory_inv s'"
  using assms(2)
proof (cases rule: getConstant_elim)
  case (1 m' p')
  from assms(1) have c: "pool_inv Constant (memory s) (constPool s)"
    and v: "pool_inv Variable (memory s) (varPool s)"
    and l: "\<forall>b<length (memory s). leaf (obj (memory s ! b))"
    by (simp_all add: factory_inv_def)
  have "pool_inv Constant m' p'" using c _ 1(1) by (rule pool_get_inv) (simp add: inj_def)
  moreover have "pool_inv Variable m' (varPool s)" using v _ 1(1) by (rule pool_get_inv_other) simp
  moreover have "\<forall>b<length m'. leaf (obj (m' ! b))" using l _ 1(1) by (rule pool_get_leaves) simp
  ultimately show ?thesis unfolding 1(2) by (simp add: factory_inv_def)
qed

lemma factory_inv_getVariable:
  assumes "factory_inv s" "getVariable n s = (a, s')"
  shows "factory_inv s'"
  using assms(2)
proof (cases rule: getVariable_elim)
  case (1 m' p')
  from assms(1) have c: "pool_inv Constant (memory s) (constPool s)"
    and v: "pool_inv Variable (memory s) (varPool s)"
    and l: "\<forall>b<length (memory s). leaf (obj (memory s ! b))"
    by (simp_all add: factory_inv_def)
  have "pool_inv Variable m' p'" using v _ 1(1) by (rule pool_get_inv) (simp add: inj_def)
  moreover have "pool_inv Constant m' (constPool s)" using c _ 1(1) by (rule pool_get_inv_other) simp
  moreover have "\<forall>b<length m'. leaf (obj (m' ! b))" using l _ 1(1) by (rule pool_get_leaves) simp
  ultimately show ?thesis unfolding 1(2) by (simp add: factory_inv_def)
qed

lemma factory_inv_memory:
  assumes "factory_inv s" "length m' = length (memory s)"
    and "\<And>b. obj (m' ! b) = obj (memory s ! b)" "\<And>b. live m' b \<Longrightarrow> live (memory s) b"
  shows "factory_inv (s\<lparr>memory := m'\<rparr>)"
proof -
  from assms(1) have c: "pool_inv Constant (memory s) (constPool s)"
    and v: "pool_inv Variable (memory s) (varPool s)"
    and l: "\<forall>b<length (memory s). leaf (obj (memory s ! b))"
    by (simp_all add: factory_inv_def)
  have "pool_inv Constant m' (constPool s)" using c assms(2,3,4) by (rule pool_inv_same_objects)
  moreover have "pool_inv Variable m' (varPool s)" using v assms(2,3,4) by (rule pool_inv_same_objects)
  ultimately show ?thesis using l assms(2,3) by (simp add: factory_inv_def)
qed

lemma client_inv_step:
  assumes "client_inv c"
  shows "client_inv (step c r)"
proof -
  obtain owners s where c: "c = (owners, s)" by (cases c)
  from assms have f: "factory_inv s" and o: "owners_inv owners (memory s)"
    by (simp_all add: client_inv_def c)
  show ?thesis
  proof (cases r)
    case (GetConstant v)
    obtain a s' where g: "getConstant v s = (a, s')" by (cases "getConstant v s")
    have "factory_inv s'" using f g by (rule factory_inv_getConstant)
    moreover have "owners_inv (a # owners) (memory s')"
      using g
    proof (cases rule: getConstant_elim)
      case (1 m' p')
      from pool_get_owners [OF o 1(1)] show ?thesis unfolding 1(2) by simp
    qed
    ultimately show ?thesis by (simp add: client_inv_def c GetConstant g)
  next
    case (GetVariable n)
    obtain a s' where g: "getVariable n s = (a, s')" by (cases "getVariable n s")
    have "factory_inv s'" using f g by (rule factory_inv_getVariable)
    moreover have "owners_inv (a # owners) (memory s')"
      using g
    proof (cases rule: getVariable_elim)
      case (1 m' p')
      from pool_get_owners [OF o 1(1)] show ?thesis unfolding 1(2) by simp
    qed
    ultimately show ?thesis by (simp add: client_inv_def c GetVariable g)
  next
    case (Copy a)
    show ?thesis
    proof (cases "a \<in> set owners")
      case True
      with o have "a < length (memory s)" unfolding owners_inv_def by blast
      with o True have lv: "live (memory s) a" by (simp add: owners_inv_live)
      have "factory_inv (s\<lparr>memory := acquire a (memory s)\<rparr>)"
        using f by (rule factory_inv_memory) (simp_all add: live_acquire [OF lv])
      moreover have "owners_inv (a # owners) (acquire a (memory s))"
        using o True by (rule owners_inv_copy)
      ultimately show ?thesis by (simp add: client_inv_def c Copy True)
    next
      case False
      with assms show ?thesis by (simp add: c Copy)
    qed
  next
    case (Release a)
    show ?thesis
    proof (cases "a \<in> set owners")
      case True
      have "factory_inv (s\<lparr>memory := release a (memory s)\<rparr>)"
        using f by (rule factory_inv_memory) (simp_all add: live_release)
      moreover have "owners_inv (remove1 a owners) (release a (memory s))"
        using o True by (rule owners_inv_release)
      ultimately show ?thesis by (simp add: client_inv_def c Release True)
    next
      case False
      with assms show ?thesis by (simp add: c Release)
    qed
  qed
qed

lemma client_inv_initial: "client_inv ([], initial)"
  by (simp add: client_inv_def factory_inv_def owners_inv_def pool_inv_def initial_def)

lemma run_from_snoc: "run_from c (reqs @ [r]) = step (run_from c reqs) r"
  by (simp add: run_from_def)

lemma client_inv_run_from: "client_inv c \<Longrightarrow> client_inv (run_from c reqs)"
proof (induction reqs rule: rev_induct)
  case Nil
  then show ?case by (simp add: run_from_def)
next
  case (snoc r reqs)
  then show ?case unfolding run_from_snoc by (simp add: client_inv_step)
qed

lemma client_inv_run: "client_inv (run reqs)"
  unfolding run_def using client_inv_initial by (rule client_inv_run_from)

lemma run_invariants:
  assumes "run reqs = (owners, s)"
  shows "factory_inv s" and "owners_inv owners (memory s)"
  using client_inv_run [of reqs] by (simp_all add: client_inv_def assms)

subsection \<open>The operation \<open>get\<close>\<close>

lemma map_of_prune_keep:
  assumes "map_of pool k = Some (Some a)" "live m a"
  shows "map_of (prune m pool) k = Some (Some a)"
proof -
  from assms(2) have "\<not> expired m (Some a)" by (simp add: expired_def)
  with assms(1) show ?thesis unfolding prune_filter by (rule map_of_filter_in)
qed

lemma pool_get_live_entry:
  assumes "map_of pool k = Some (Some a)" "live m a"
  shows "pool_get mk k m pool = (a, acquire a m, prune m pool)"
  using map_of_prune_keep [OF assms] by (rule pool_get_hit)

lemma pool_get_no_live_node:
  assumes "pool_inv mk m pool" "\<And>b. live m b \<Longrightarrow> obj (m ! b) \<noteq> mk k"
  shows "pool_get mk k m pool =
           (length m, m @ [\<lparr>obj = mk k, use_count = 1\<rparr>], prune m pool @ [(k, Some (length m))])"
proof (rule pool_get_miss)
  show "map_of (prune m pool) k = None"
  proof (cases "map_of (prune m pool) k")
    case None
    then show ?thesis .
  next
    case (Some wp)
    from map_of_prune_live [OF Some] obtain a where a: "wp = Some a" "live m a" by auto
    from Some a(1) have "(k, Some a) \<in> set (prune m pool)" by (simp add: map_of_SomeD)
    then have "(k, Some a) \<in> set pool" by (simp add: prune_filter)
    with assms(1) have "case Some a of None \<Rightarrow> True | Some a \<Rightarrow> a < length m \<and> obj (m ! a) = mk k"
      unfolding pool_inv_def by blast
    then have "obj (m ! a) = mk k" by simp
    with assms(2) [OF a(2)] show ?thesis by simp
  qed
qed

lemma pool_get_keeps_absent:
  assumes "pool_get mk k m pool = (a, m', pool')" "\<And>b. live m b \<Longrightarrow> obj (m ! b) \<noteq> e" "mk k \<noteq> e"
    and "live m' b"
  shows "obj (m' ! b) \<noteq> e"
  using assms(1)
proof (cases rule: pool_get_elim)
  case hit
  from assms(4) have "live m b" unfolding hit(3) by (simp add: live_acquire [OF hit(2)])
  with assms(2) show ?thesis unfolding hit(3) by simp
next
  case miss
  show ?thesis
  proof (cases "b < length m")
    case True
    with assms(4) have "live m b" unfolding miss(3) by (simp add: live_append)
    with assms(2) True show ?thesis unfolding miss(3) by (simp add: nth_append)
  next
    case False
    with assms(4) have "b = length m" unfolding miss(3) by (simp add: live_append live_def)
    with assms(3) show ?thesis unfolding miss(3) by simp
  qed
qed

lemma get_result:
  assumes "get key s = (a, s')"
  shows "pool_entry s' key = Some (Some a)" and "live (memory s') a"
    and "\<forall>wp \<in> set (pool_entries s' key). \<not> expired (memory s') wp"
proof -
  have "pool_entry s' key = Some (Some a) \<and> live (memory s') a \<and>
        (\<forall>wp \<in> set (pool_entries s' key). \<not> expired (memory s') wp)"
  proof (cases key)
    case (ConstantKey v)
    with assms have "getConstant v s = (a, s')" by simp
    then show ?thesis
    proof (cases rule: getConstant_elim)
      case (1 m' p')
      from pool_get_result [OF 1(1)] show ?thesis unfolding 1(2) ConstantKey by auto
    qed
  next
    case (VariableKey n)
    with assms have "getVariable n s = (a, s')" by simp
    then show ?thesis
    proof (cases rule: getVariable_elim)
      case (1 m' p')
      from pool_get_result [OF 1(1)] show ?thesis unfolding 1(2) VariableKey by auto
    qed
  qed
  then show "pool_entry s' key = Some (Some a)" and "live (memory s') a"
    and "\<forall>wp \<in> set (pool_entries s' key). \<not> expired (memory s') wp" by simp_all
qed

lemma get_obj:
  assumes "factory_inv s" "get key s = (a, s')"
  shows "obj (memory s' ! a) = node_of key"
proof (cases key)
  case (ConstantKey v)
  with assms have "getConstant v s = (a, s')" by simp
  then show ?thesis
  proof (cases rule: getConstant_elim)
    case (1 m' p')
    from assms(1) have "pool_inv Constant (memory s) (constPool s)" by (simp add: factory_inv_def)
    from pool_get_obj [OF this 1(1)] show ?thesis unfolding 1(2) ConstantKey by simp
  qed
next
  case (VariableKey n)
  with assms have "getVariable n s = (a, s')" by simp
  then show ?thesis
  proof (cases rule: getVariable_elim)
    case (1 m' p')
    from assms(1) have "pool_inv Variable (memory s) (varPool s)" by (simp add: factory_inv_def)
    from pool_get_obj [OF this 1(1)] show ?thesis unfolding 1(2) VariableKey by simp
  qed
qed

lemma get_live_entry:
  assumes "pool_entry s key = Some (Some a)" "live (memory s) a" "get key s = (a', s')"
  shows "a' = a" and "memory s' = acquire a (memory s)"
proof -
  have "a' = a \<and> memory s' = acquire a (memory s)"
  proof (cases key)
    case (ConstantKey v)
    with assms(1) have e: "map_of (constPool s) v = Some (Some a)" by simp
    from assms(3) ConstantKey have "getConstant v s = (a', s')" by simp
    then show ?thesis
    proof (cases rule: getConstant_elim)
      case (1 m' p')
      from pool_get_live_entry [OF e assms(2), of Constant] 1(1)
      have "a' = a" "m' = acquire a (memory s)" by simp_all
      then show ?thesis unfolding 1(2) by simp
    qed
  next
    case (VariableKey n)
    with assms(1) have e: "map_of (varPool s) n = Some (Some a)" by simp
    from assms(3) VariableKey have "getVariable n s = (a', s')" by simp
    then show ?thesis
    proof (cases rule: getVariable_elim)
      case (1 m' p')
      from pool_get_live_entry [OF e assms(2), of Variable] 1(1)
      have "a' = a" "m' = acquire a (memory s)" by simp_all
      then show ?thesis unfolding 1(2) by simp
    qed
  qed
  then show "a' = a" and "memory s' = acquire a (memory s)" by simp_all
qed

lemma get_no_live_node:
  assumes "factory_inv s" "\<And>b. live (memory s) b \<Longrightarrow> obj (memory s ! b) \<noteq> node_of key"
    and "get key s = (a', s')"
  shows "a' = length (memory s)"
    and "memory s' = memory s @ [\<lparr>obj = node_of key, use_count = 1\<rparr>]"
proof -
  have "a' = length (memory s) \<and> memory s' = memory s @ [\<lparr>obj = node_of key, use_count = 1\<rparr>]"
  proof (cases key)
    case (ConstantKey v)
    from assms(1) have p: "pool_inv Constant (memory s) (constPool s)" by (simp add: factory_inv_def)
    from assms(3) ConstantKey have "getConstant v s = (a', s')" by simp
    then show ?thesis
    proof (cases rule: getConstant_elim)
      case (1 m' p')
      have "pool_get Constant v (memory s) (constPool s) =
              (length (memory s), memory s @ [\<lparr>obj = Constant v, use_count = 1\<rparr>],
               prune (memory s) (constPool s) @ [(v, Some (length (memory s)))])"
        using p assms(2) unfolding ConstantKey by (intro pool_get_no_live_node) simp_all
      with 1(1) have "a' = length (memory s)"
        "m' = memory s @ [\<lparr>obj = Constant v, use_count = 1\<rparr>]" by simp_all
      then show ?thesis unfolding 1(2) ConstantKey by simp
    qed
  next
    case (VariableKey n)
    from assms(1) have p: "pool_inv Variable (memory s) (varPool s)" by (simp add: factory_inv_def)
    from assms(3) VariableKey have "getVariable n s = (a', s')" by simp
    then show ?thesis
    proof (cases rule: getVariable_elim)
      case (1 m' p')
      have "pool_get Variable n (memory s) (varPool s) =
              (length (memory s), memory s @ [\<lparr>obj = Variable n, use_count = 1\<rparr>],
               prune (memory s) (varPool s) @ [(n, Some (length (memory s)))])"
        using p assms(2) unfolding VariableKey by (intro pool_get_no_live_node) simp_all
      with 1(1) have "a' = length (memory s)"
        "m' = memory s @ [\<lparr>obj = Variable n, use_count = 1\<rparr>]" by simp_all
      then show ?thesis unfolding 1(2) VariableKey by simp
    qed
  qed
  then show "a' = length (memory s)"
    and "memory s' = memory s @ [\<lparr>obj = node_of key, use_count = 1\<rparr>]" by simp_all
qed

lemma live_unique:
  assumes "factory_inv s" "live (memory s) a" "live (memory s) b"
    and "obj (memory s ! a) = obj (memory s ! b)"
  shows "a = b"
proof -
  from assms(2,3) have lt: "a < length (memory s)" "b < length (memory s)" by (simp_all add: live_def)
  from assms(1) lt have "leaf (obj (memory s ! a))" by (simp add: factory_inv_def)
  then show ?thesis
  proof (cases "obj (memory s ! a)")
    case (Constant v)
    from assms(1) have p: "pool_inv Constant (memory s) (constPool s)" by (simp add: factory_inv_def)
    from p lt(1) assms(2) Constant have "map_of (constPool s) v = Some (Some a)"
      unfolding pool_inv_def by blast
    moreover from p lt(2) assms(3,4) Constant have "map_of (constPool s) v = Some (Some b)"
      unfolding pool_inv_def by metis
    ultimately show ?thesis by simp
  next
    case (Variable n)
    from assms(1) have p: "pool_inv Variable (memory s) (varPool s)" by (simp add: factory_inv_def)
    from p lt(1) assms(2) Variable have "map_of (varPool s) n = Some (Some a)"
      unfolding pool_inv_def by blast
    moreover from p lt(2) assms(3,4) Variable have "map_of (varPool s) n = Some (Some b)"
      unfolding pool_inv_def by metis
    ultimately show ?thesis by simp
  qed simp_all
qed

lemma factory_inv_get:
  assumes "factory_inv s" "get key s = (a, s')"
  shows "factory_inv s'"
  using assms by (cases key) (auto intro: factory_inv_getConstant factory_inv_getVariable)

lemma render_node_of:
  "render (node_of key) = (case key of ConstantKey v \<Rightarrow> dec_int (sint v) | VariableKey n \<Rightarrow> n)"
  by (cases key) (simp_all add: render_def)

lemma step_get_request: "step (owners, s) (get_request key) = (fst (get key s) # owners, snd (get key s))"
  by (cases key) (simp_all split: prod.splits)

lemma pool_get_memory:
  assumes "pool_get mk k m pool = (a, m', pool')"
  shows "length m \<le> length m' \<and> (\<forall>b<length m. obj (m' ! b) = obj (m ! b))"
  using assms
proof (cases rule: pool_get_elim)
  case hit
  show ?thesis unfolding hit(3) by simp
next
  case miss
  show ?thesis unfolding miss(3) by (simp add: nth_append)
qed

lemma step_memory:
  assumes "step c r = c'"
  shows "length (memory (snd c)) \<le> length (memory (snd c')) \<and>
         (\<forall>b<length (memory (snd c)). obj (memory (snd c') ! b) = obj (memory (snd c) ! b))"
proof -
  obtain owners s where c: "c = (owners, s)" by (cases c)
  show ?thesis
  proof (cases r)
    case (GetConstant v)
    obtain a s' where g: "getConstant v s = (a, s')" by (cases "getConstant v s")
    from g show ?thesis
    proof (cases rule: getConstant_elim)
      case (1 m' p')
      from pool_get_memory [OF 1(1)] assms show ?thesis
        by (auto simp: c GetConstant g 1(2))
    qed
  next
    case (GetVariable n)
    obtain a s' where g: "getVariable n s = (a, s')" by (cases "getVariable n s")
    from g show ?thesis
    proof (cases rule: getVariable_elim)
      case (1 m' p')
      from pool_get_memory [OF 1(1)] assms show ?thesis
        by (auto simp: c GetVariable g 1(2))
    qed
  next
    case (Copy a)
    with assms show ?thesis by (auto simp: c)
  next
    case (Release a)
    with assms show ?thesis by (auto simp: c)
  qed
qed

lemma run_from_memory:
  "length (memory (snd c)) \<le> length (memory (snd (run_from c reqs))) \<and>
   (\<forall>b<length (memory (snd c)). obj (memory (snd (run_from c reqs)) ! b) = obj (memory (snd c) ! b))"
proof (induction reqs rule: rev_induct)
  case Nil
  show ?case by (simp add: run_from_def)
next
  case (snoc r reqs)
  from step_memory [OF refl, of "run_from c reqs" r] snoc show ?case
    unfolding run_from_snoc by auto
qed

lemma absent_step:
  assumes "client_inv c" "\<And>b. live (memory (snd c)) b \<Longrightarrow> obj (memory (snd c) ! b) \<noteq> node_of key"
    and "r \<noteq> get_request key" "live (memory (snd (step c r))) b"
  shows "obj (memory (snd (step c r)) ! b) \<noteq> node_of key"
proof -
  obtain owners s where c: "c = (owners, s)" by (cases c)
  from assms(1) have o: "owners_inv owners (memory s)" by (simp add: client_inv_def c)
  note absent = assms(2) [unfolded c snd_conv]
  show ?thesis
  proof (cases r)
    case (GetConstant v)
    obtain a s' where g: "getConstant v s = (a, s')" by (cases "getConstant v s")
    from assms(3) GetConstant have ne: "Constant v \<noteq> node_of key" by (cases key) auto
    from g show ?thesis
    proof (cases rule: getConstant_elim)
      case (1 m' p')
      from assms(4) have "live m' b" by (simp add: c GetConstant g 1(2))
      from pool_get_keeps_absent [OF 1(1) absent ne this] show ?thesis
        by (simp add: c GetConstant g 1(2))
    qed
  next
    case (GetVariable n)
    obtain a s' where g: "getVariable n s = (a, s')" by (cases "getVariable n s")
    from assms(3) GetVariable have ne: "Variable n \<noteq> node_of key" by (cases key) auto
    from g show ?thesis
    proof (cases rule: getVariable_elim)
      case (1 m' p')
      from assms(4) have "live m' b" by (simp add: c GetVariable g 1(2))
      from pool_get_keeps_absent [OF 1(1) absent ne this] show ?thesis
        by (simp add: c GetVariable g 1(2))
    qed
  next
    case (Copy a)
    show ?thesis
    proof (cases "a \<in> set owners")
      case True
      with o have "a < length (memory s)" unfolding owners_inv_def by blast
      with o True have lv: "live (memory s) a" by (simp add: owners_inv_live)
      from assms(4) have "live (memory s) b" by (simp add: c Copy True live_acquire [OF lv])
      from absent [OF this] show ?thesis by (simp add: c Copy True)
    next
      case False
      with assms(4) absent show ?thesis by (simp add: c Copy)
    qed
  next
    case (Release a)
    show ?thesis
    proof (cases "a \<in> set owners")
      case True
      from assms(4) have "live (memory s) b" by (simp add: c Release True live_release)
      from absent [OF this] show ?thesis by (simp add: c Release True)
    next
      case False
      with assms(4) absent show ?thesis by (simp add: c Release)
    qed
  qed
qed

lemma absent_run_from:
  assumes "client_inv c" "\<And>b. live (memory (snd c)) b \<Longrightarrow> obj (memory (snd c) ! b) \<noteq> node_of key"
    and "get_request key \<notin> set reqs"
  shows "live (memory (snd (run_from c reqs))) b \<Longrightarrow> obj (memory (snd (run_from c reqs)) ! b) \<noteq> node_of key"
  using assms(3)
proof (induction reqs arbitrary: b rule: rev_induct)
  case Nil
  with assms(2) show ?case by (simp add: run_from_def)
next
  case (snoc r reqs)
  from snoc.prems(2) have r: "r \<noteq> get_request key" and n: "get_request key \<notin> set reqs" by auto
  have i: "client_inv (run_from c reqs)" using assms(1) by (rule client_inv_run_from)
  from snoc.prems(1) have l: "live (memory (snd (step (run_from c reqs) r))) b"
    unfolding run_from_snoc .
  show ?case unfolding run_from_snoc
    by (rule absent_step [OF i _ r l]) (rule snoc.IH [OF _ n])
qed

lemma run_from_Cons: "run_from c (r # reqs) = run_from (step c r) reqs"
  by (simp add: run_from_def)

lemmas factory_eval = run_def run_from_def initial_def getConstant_def getVariable_def
  subscript_def lock_def expired_def live_def acquire_def release_def make_shared_def Let_def

section \<open>The claims\<close>

text \<open>
  Claim C1 (as stated: every binary operation evaluates its left subtree fully before its
  right subtree, so \<open>IntegerDivide(Variable("undef"), Constant(0))\<close> fails with
  UndefinedVariable and not with DivisionByZero). \<open>IntegerDivide::evaluate\<close> evaluates
  the divisor first and tests it before it touches the dividend: under the empty context
  and with left-to-right sequencing everywhere else, the expression fails with
  DivisionByZero, and the only nodes entered are the division and its right operand.
\<close>

theorem left_before_right_counterexample:
  "evaluate left_to_right [] (IntegerDivide (Variable ''undef'') (Constant 0)) = Inl DivisionByZero \<and>
   DivisionByZero \<noteq> UndefinedVariable ''undef'' \<and>
   visited left_to_right [] (IntegerDivide (Variable ''undef'') (Constant 0)) =
     [IntegerDivide (Variable ''undef'') (Constant 0), Constant 0]"
  by (simp add: DivisionByZero_def UndefinedVariable_def)

text \<open>
  Claim C1, amended. \<open>IntegerDivide\<close> evaluates its right subtree first: a failure of the
  right subtree, or a divisor of 0, is reported before the left subtree is evaluated, and
  a failure of the left subtree is reported only when the divisor is a nonzero value; so
  \<open>IntegerDivide(Variable("undef"), Constant(0))\<close> fails with DivisionByZero under every
  context. For \<open>Add\<close>, \<open>Subtract\<close> and \<open>Multiply\<close>, where the left operand is
  evaluated first a failure of the left subtree is the result whatever the right subtree
  does, and when both subtrees succeed the operator is applied to the two values.
\<close>

theorem divisor_before_dividend:
  "(evaluate sq vars r = Inl err \<longrightarrow> evaluate sq vars (IntegerDivide l r) = Inl err) \<and>
   (evaluate sq vars r = Inr 0 \<longrightarrow> evaluate sq vars (IntegerDivide l r) = Inl DivisionByZero) \<and>
   (evaluate sq vars r = Inr d \<and> d \<noteq> 0 \<and> evaluate sq vars l = Inl err \<longrightarrow>
      evaluate sq vars (IntegerDivide l r) = Inl err) \<and>
   evaluate sq vars (IntegerDivide (Variable ''undef'') (Constant 0)) = Inl DivisionByZero \<and>
   (evaluate sq vars l = Inl err \<longrightarrow>
      (sq (Add l r) = LeftFirst \<longrightarrow> evaluate sq vars (Add l r) = Inl err) \<and>
      (sq (Subtract l r) = LeftFirst \<longrightarrow> evaluate sq vars (Subtract l r) = Inl err) \<and>
      (sq (Multiply l r) = LeftFirst \<longrightarrow> evaluate sq vars (Multiply l r) = Inl err)) \<and>
   (evaluate sq vars l = Inr a \<and> evaluate sq vars r = Inr b \<longrightarrow>
      evaluate sq vars (Add l r) = Inr (a + b) \<and>
      evaluate sq vars (Subtract l r) = Inr (a - b) \<and>
      evaluate sq vars (Multiply l r) = Inr (a * b))"
  by (cases "sq (Add l r)"; cases "sq (Subtract l r)"; cases "sq (Multiply l r)")
     (simp_all add: DivisionByZero_def both_operands_def)

theorem divisor_before_dividend_witness:
  "evaluate left_to_right [] (Variable ''undef'') = Inl (UndefinedVariable ''undef'') \<and>
   evaluate left_to_right [] (Constant 0) = Inr 0 \<and>
   evaluate left_to_right [] (IntegerDivide (Variable ''undef'') (Constant 0)) = Inl DivisionByZero \<and>
   evaluate left_to_right [] (IntegerDivide (Constant 1) (Variable ''undef'')) =
     Inl (UndefinedVariable ''undef'') \<and>
   evaluate left_to_right [] (Constant 4) = Inr 4 \<and> (4 :: cint) \<noteq> 0 \<and>
   evaluate left_to_right [] (IntegerDivide (Variable ''undef'') (Constant 4)) =
     Inl (UndefinedVariable ''undef'') \<and>
   left_to_right (Add (Variable ''undef'') (IntegerDivide (Constant 1) (Constant 0))) = LeftFirst \<and>
   evaluate left_to_right [] (Add (Variable ''undef'') (IntegerDivide (Constant 1) (Constant 0))) =
     Inl (UndefinedVariable ''undef'') \<and>
   left_to_right (Subtract (Variable ''undef'') (IntegerDivide (Constant 1) (Constant 0))) = LeftFirst \<and>
   evaluate left_to_right [] (Subtract (Variable ''undef'') (IntegerDivide (Constant 1) (Constant 0))) =
     Inl (UndefinedVariable ''undef'') \<and>
   left_to_right (Multiply (Variable ''undef'') (IntegerDivide (Constant 1) (Constant 0))) = LeftFirst \<and>
   evaluate left_to_right [] (Multiply (Variable ''undef'') (IntegerDivide (Constant 1) (Constant 0))) =
     Inl (UndefinedVariable ''undef'') \<and>
   evaluate left_to_right [] (Constant 1) = Inr 1 \<and>
   evaluate left_to_right [] (Subtract (Constant 1) (Constant 4)) = Inr (- 3)"
proof -
  have u: "evaluate left_to_right [] (Variable ''undef'') = Inl (UndefinedVariable ''undef'')"
    by (simp add: UndefinedVariable_def)
  have z: "evaluate left_to_right [] (Constant 0) = Inr 0"
    and f: "evaluate left_to_right [] (Constant 4) = Inr 4"
    and o: "evaluate left_to_right [] (Constant 1) = Inr 1" by simp_all
  have lf: "left_to_right e = LeftFirst" for e by (simp add: left_to_right_def)
  note t1 = divisor_before_dividend [of left_to_right "[]" "Constant 0" "UndefinedVariable ''undef''"
      "Variable ''undef''" 0 0 0]
  note t2 = divisor_before_dividend [of left_to_right "[]" "Variable ''undef''" "UndefinedVariable ''undef''"
      "Constant 1" 0 0 0]
  note t3 = divisor_before_dividend [of left_to_right "[]" "Constant 4" "UndefinedVariable ''undef''"
      "Variable ''undef''" 4 0 0]
  note t4 = divisor_before_dividend [of left_to_right "[]" "IntegerDivide (Constant 1) (Constant 0)"
      "UndefinedVariable ''undef''" "Variable ''undef''" 0 0 0]
  note t5 = divisor_before_dividend [of left_to_right "[]" "Constant 4" "UndefinedVariable ''undef''"
      "Constant 1" 0 1 4]
  from t1 z have "evaluate left_to_right [] (IntegerDivide (Variable ''undef'') (Constant 0)) = Inl DivisionByZero"
    by blast
  moreover from t2 u have "evaluate left_to_right [] (IntegerDivide (Constant 1) (Variable ''undef'')) =
     Inl (UndefinedVariable ''undef'')" by blast
  moreover from t3 f u have "evaluate left_to_right [] (IntegerDivide (Variable ''undef'') (Constant 4)) =
     Inl (UndefinedVariable ''undef'')" by simp
  moreover from t4 u lf
  have "evaluate left_to_right [] (Add (Variable ''undef'') (IntegerDivide (Constant 1) (Constant 0))) =
     Inl (UndefinedVariable ''undef'')" by blast
  moreover from t4 u lf
  have "evaluate left_to_right [] (Subtract (Variable ''undef'') (IntegerDivide (Constant 1) (Constant 0))) =
     Inl (UndefinedVariable ''undef'')" by blast
  moreover from t4 u lf
  have "evaluate left_to_right [] (Multiply (Variable ''undef'') (IntegerDivide (Constant 1) (Constant 0))) =
     Inl (UndefinedVariable ''undef'')" by blast
  moreover from t5 o f have "evaluate left_to_right [] (Subtract (Constant 1) (Constant 4)) = Inr (- 3)"
    by simp
  ultimately show ?thesis using u z f o lf by simp
qed

text \<open>
  Claim C4. \<open>evaluate\<close> fails with UndefinedVariable(name) exactly when a \<open>Variable\<close> node
  of that name, absent from the context, is reached during the evaluation, and with
  DivisionByZero exactly when an \<open>IntegerDivide\<close> node is reached whose right operand
  evaluates to 0. There is no other failure, and the failure of any node reached is the
  failure of the whole call: the result is the error alone, with no value beside it.
  Rendering and the construction of nodes return no error value at all.
\<close>

theorem evaluate_error_conditions:
  "(evaluate sq vars e = Inl (UndefinedVariable n)) =
     (\<exists>x \<in> set (visited sq vars e). missing_variable vars n x) \<and>
   (evaluate sq vars e = Inl DivisionByZero) =
     (\<exists>x \<in> set (visited sq vars e). zero_divisor sq vars x) \<and>
   (\<forall>err. evaluate sq vars e = Inl err \<longrightarrow>
      err = DivisionByZero \<or> (\<exists>name. err = UndefinedVariable name)) \<and>
   (\<forall>x \<in> set (visited sq vars e). \<forall>err.
      evaluate sq vars x = Inl err \<longrightarrow> evaluate sq vars e = Inl err)"
proof -
  have u: "(evaluate sq vars e = Inl (UndefinedVariable n)) =
     (\<exists>x \<in> set (visited sq vars e). missing_variable vars n x)"
  proof
    assume "evaluate sq vars e = Inl (UndefinedVariable n)"
    from error_origin [OF this] obtain x where x: "x \<in> set (visited sq vars e)"
      and d: "(\<exists>m. UndefinedVariable n = UndefinedVariable m \<and> missing_variable vars m x) \<or>
              (UndefinedVariable n = DivisionByZero \<and> zero_divisor sq vars x)" by blast
    from d have "missing_variable vars n x"
      by (auto simp: UndefinedVariable_inject UndefinedVariable_not_DivisionByZero)
    with x show "\<exists>x \<in> set (visited sq vars e). missing_variable vars n x" by blast
  next
    assume "\<exists>x \<in> set (visited sq vars e). missing_variable vars n x"
    then obtain x where x: "x \<in> set (visited sq vars e)" "missing_variable vars n x" by blast
    from error_propagates [OF x(1) missing_variable_fails [OF x(2)]]
    show "evaluate sq vars e = Inl (UndefinedVariable n)" .
  qed
  have z: "(evaluate sq vars e = Inl DivisionByZero) =
     (\<exists>x \<in> set (visited sq vars e). zero_divisor sq vars x)"
  proof
    assume "evaluate sq vars e = Inl DivisionByZero"
    from error_origin [OF this] obtain x where x: "x \<in> set (visited sq vars e)"
      and d: "(\<exists>m. DivisionByZero = UndefinedVariable m \<and> missing_variable vars m x) \<or>
              (DivisionByZero = DivisionByZero \<and> zero_divisor sq vars x)" by blast
    from d have "zero_divisor sq vars x"
      using UndefinedVariable_not_DivisionByZero by metis
    with x show "\<exists>x \<in> set (visited sq vars e). zero_divisor sq vars x" by blast
  next
    assume "\<exists>x \<in> set (visited sq vars e). zero_divisor sq vars x"
    then obtain x where x: "x \<in> set (visited sq vars e)" "zero_divisor sq vars x" by blast
    from error_propagates [OF x(1) zero_divisor_fails [OF x(2)]]
    show "evaluate sq vars e = Inl DivisionByZero" .
  qed
  from u z evaluate_error_kinds [of sq vars e] error_propagates [of _ sq vars e]
  show ?thesis by blast
qed

theorem evaluate_error_conditions_witness:
  "Variable ''y'' \<in> set (visited left_to_right [(''x'', 3)] (Add (Constant 1) (Variable ''y''))) \<and>
   missing_variable [(''x'', 3)] ''y'' (Variable ''y'') \<and>
   evaluate left_to_right [(''x'', 3)] (Variable ''y'') = Inl (UndefinedVariable ''y'') \<and>
   evaluate left_to_right [(''x'', 3)] (Add (Constant 1) (Variable ''y'')) =
     Inl (UndefinedVariable ''y'') \<and>
   IntegerDivide (Constant 7) (Constant 0) \<in>
     set (visited left_to_right [(''x'', 3)] (IntegerDivide (Constant 7) (Constant 0))) \<and>
   zero_divisor left_to_right [(''x'', 3)] (IntegerDivide (Constant 7) (Constant 0)) \<and>
   evaluate left_to_right [(''x'', 3)] (IntegerDivide (Constant 7) (Constant 0)) = Inl DivisionByZero"
proof -
  have v: "Variable ''y'' \<in> set (visited left_to_right [(''x'', 3)] (Add (Constant 1) (Variable ''y'')))"
    by (simp add: both_visited_def left_to_right_def)
  have m: "missing_variable [(''x'', 3)] ''y'' (Variable ''y'')" by simp
  have e: "evaluate left_to_right [(''x'', 3)] (Variable ''y'') = Inl (UndefinedVariable ''y'')"
    by (simp add: UndefinedVariable_def)
  have d: "IntegerDivide (Constant 7) (Constant 0) \<in>
     set (visited left_to_right [(''x'', 3)] (IntegerDivide (Constant 7) (Constant 0)))" by simp
  have zd: "zero_divisor left_to_right [(''x'', 3)] (IntegerDivide (Constant 7) (Constant 0))" by simp
  from evaluate_error_conditions [of left_to_right "[(''x'', 3)]" "Add (Constant 1) (Variable ''y'')" "''y''"]
    v m
  have "evaluate left_to_right [(''x'', 3)] (Add (Constant 1) (Variable ''y'')) =
     Inl (UndefinedVariable ''y'')" by blast
  moreover
  from evaluate_error_conditions [of left_to_right "[(''x'', 3)]" "IntegerDivide (Constant 7) (Constant 0)"]
    d zd
  have "evaluate left_to_right [(''x'', 3)] (IntegerDivide (Constant 7) (Constant 0)) = Inl DivisionByZero"
    by blast
  ultimately show ?thesis using v m e d zd by simp
qed

text \<open>
  Claim C7. When both operands evaluate and the divisor is not 0, \<open>IntegerDivide\<close> yields
  the quotient truncated toward zero: its sign is the product of the operands' signs and
  its magnitude is the magnitude of the dividend divided by that of the divisor, rounded
  down; negative operands get no other treatment. \<open>IntegerDivide(Constant(-7),
  Constant(2))\<close> yields -3. The quotient of the least \<open>int\<close> by -1, which does not fit in
  32 bits and is undefined in C++, is left out.
\<close>

theorem integer_divide_truncates:
  assumes "evaluate sq vars l = Inr a" "evaluate sq vars r = Inr b" "b \<noteq> 0"
    and "\<not> (sint a = - (2 ^ 31) \<and> sint b = - 1)"
  shows "evaluate sq vars (IntegerDivide l r) = Inr (int_divide a b) \<and>
         sint (int_divide a b) = sgn (sint a) * sgn (sint b) * (\<bar>sint a\<bar> div \<bar>sint b\<bar>) \<and>
         \<bar>sint (int_divide a b)\<bar> * \<bar>sint b\<bar> \<le> \<bar>sint a\<bar> \<and>
         \<bar>sint a\<bar> < (\<bar>sint (int_divide a b)\<bar> + 1) * \<bar>sint b\<bar> \<and>
         evaluate sq vars (IntegerDivide (Constant (- 7)) (Constant 2)) = Inr (- 3)"
proof -
  from assms(3) have nz: "sint b \<noteq> 0" by (simp add: signed_eq_0_iff)
  note q = sint_int_divide [OF assms(4)]
  have "evaluate sq vars (IntegerDivide l r) = Inr (int_divide a b)"
    using assms(1,2,3) by simp
  moreover have "sint (int_divide a b) = sgn (sint a) * sgn (sint b) * (\<bar>sint a\<bar> div \<bar>sint b\<bar>)"
    by (simp add: q signed_divide_int_def)
  moreover note trunc_quotient(2,3) [OF nz, of "sint a", folded q]
  moreover have "evaluate sq vars (IntegerDivide (Constant (- 7)) (Constant 2)) = Inr (- 3)"
    by (simp add: int_divide_def signed_divide_int_def)
  ultimately show ?thesis by simp
qed

theorem integer_divide_truncates_witness:
  "evaluate left_to_right [(''n'', - 7)] (Variable ''n'') = Inr (- 7) \<and>
   evaluate left_to_right [(''n'', - 7)] (Constant 2) = Inr 2 \<and> (2 :: cint) \<noteq> 0 \<and>
   \<not> (sint (- 7 :: cint) = - (2 ^ 31) \<and> sint (2 :: cint) = - 1) \<and>
   evaluate left_to_right [(''n'', - 7)] (IntegerDivide (Variable ''n'') (Constant 2)) = Inr (- 3) \<and>
   sint (int_divide (- 7) 2) = - 3"
proof -
  have h: "evaluate left_to_right [(''n'', - 7)] (Variable ''n'') = Inr (- 7)"
    "evaluate left_to_right [(''n'', - 7)] (Constant 2) = Inr 2" "(2 :: cint) \<noteq> 0"
    "\<not> (sint (- 7 :: cint) = - (2 ^ 31) \<and> sint (2 :: cint) = - 1)"
    by simp_all
  from integer_divide_truncates [OF h] h show ?thesis
    by (simp add: int_divide_def signed_divide_int_def)
qed

text \<open>
  Claim C8. For every node \<open>print\<close> appends to the stream exactly the rendering the
  specification describes: the decimal value of a constant, the name of a variable, and
  \<open>(<left> <symbol> <right>)\<close> with the symbols \<open>+\<close>, \<open>-\<close>, \<open>*\<close>, \<open>//\<close> for a binary
  operation. \<open>print\<close> is total and takes no context: it cannot fail and evaluates nothing.
\<close>

theorem print_is_spec_render:
  "print e os = os @ spec_render e \<and> render e = spec_render e"
  by (simp add: print_appends render_def)

theorem print_is_spec_render_witness:
  "print (IntegerDivide (Subtract (Constant (- 7)) (Variable ''y'')) (Constant 2)) ''r = '' =
     ''r = ((-7 - y) // 2)'' \<and>
   render (IntegerDivide (Subtract (Constant (- 7)) (Variable ''y'')) (Constant 2)) =
     ''((-7 - y) // 2)''"
  unfolding print_is_spec_render [THEN conjunct1] print_is_spec_render [THEN conjunct2]
  by code_simp

text \<open>
  Claim C9. \<open>Multiply(Add(Constant(2), Variable("x")), Constant(5))\<close> evaluates to 25 under
  the context \<open>{x: 3}\<close>, whichever operand order the compiled program takes, and renders
  as \<open>((2 + x) * 5)\<close>.
\<close>

theorem example_expression:
  "evaluate sq [(''x'', 3)] (Multiply (Add (Constant 2) (Variable ''x'')) (Constant 5)) = Inr 25 \<and>
   render (Multiply (Add (Constant 2) (Variable ''x'')) (Constant 5)) = ''((2 + x) * 5)''"
proof -
  have "evaluate sq [(''x'', 3)] (Multiply (Add (Constant 2) (Variable ''x'')) (Constant 5)) = Inr 25"
    by (cases "sq (Add (Constant 2) (Variable ''x''))";
        cases "sq (Multiply (Add (Constant 2) (Variable ''x'')) (Constant 5))")
       (simp_all add: both_operands_def)
  moreover have "render (Multiply (Add (Constant 2) (Variable ''x'')) (Constant 5)) = ''((2 + x) * 5)''"
    by code_simp
  ultimately show ?thesis by simp
qed

theorem example_expression_witness:
  "evaluate right_to_left [(''x'', 3)] (Multiply (Add (Constant 2) (Variable ''x'')) (Constant 5)) = Inr 25 \<and>
   render (Multiply (Add (Constant 2) (Variable ''x'')) (Constant 5)) = ''((2 + x) * 5)''"
  by (rule example_expression)

text \<open>
  Claim C2. In every state the program can reach, two calls of \<open>get\<close> for the same key in
  immediate succession, the handle of the first call not released, return the same node;
  the second call allocates nothing; the node is alive and is the node of the key, so it
  renders as the decimal string of the integer for a constant and as the name for a
  variable.
\<close>

theorem get_twice_same_node:
  assumes "run reqs = (owners, s)" "get key s = (a1, s1)" "get key s1 = (a2, s2)"
  shows "a2 = a1 \<and> length (memory s2) = length (memory s1) \<and>
         live (memory s1) a1 \<and> live (memory s2) a2 \<and>
         obj (memory s2 ! a2) = node_of key \<and>
         render (obj (memory s2 ! a2)) =
           (case key of ConstantKey v \<Rightarrow> dec_int (sint v) | VariableKey n \<Rightarrow> n)"
proof -
  from run_invariants(1) [OF assms(1)] have "factory_inv s" .
  then have i1: "factory_inv s1" using assms(2) by (rule factory_inv_get)
  note r1 = get_result [OF assms(2)]
  note r2 = get_live_entry [OF r1(1,2) assms(3)]
  from get_obj [OF i1 assms(3)] have o: "obj (memory s2 ! a2) = node_of key" .
  from r2 r1(2) get_result(2) [OF assms(3)] o show ?thesis
    by (simp add: render_node_of)
qed

theorem get_twice_same_node_witness:
  "run [GetVariable ''x''] =
     ([0], \<lparr>memory = [\<lparr>obj = Variable ''x'', use_count = 1\<rparr>],
            constPool = [], varPool = [(''x'', Some 0)]\<rparr>) \<and>
   get (ConstantKey 7) \<lparr>memory = [\<lparr>obj = Variable ''x'', use_count = 1\<rparr>],
                        constPool = [], varPool = [(''x'', Some 0)]\<rparr> =
     (1, \<lparr>memory = [\<lparr>obj = Variable ''x'', use_count = 1\<rparr>, \<lparr>obj = Constant 7, use_count = 1\<rparr>],
          constPool = [(7, Some 1)], varPool = [(''x'', Some 0)]\<rparr>) \<and>
   get (ConstantKey 7)
       \<lparr>memory = [\<lparr>obj = Variable ''x'', use_count = 1\<rparr>, \<lparr>obj = Constant 7, use_count = 1\<rparr>],
        constPool = [(7, Some 1)], varPool = [(''x'', Some 0)]\<rparr> =
     (1, \<lparr>memory = [\<lparr>obj = Variable ''x'', use_count = 1\<rparr>, \<lparr>obj = Constant 7, use_count = 2\<rparr>],
          constPool = [(7, Some 1)], varPool = [(''x'', Some 0)]\<rparr>) \<and>
   render (Constant 7) = ''7''"
proof -
  let ?s = "\<lparr>memory = [\<lparr>obj = Variable ''x'', use_count = 1\<rparr>],
            constPool = [], varPool = [(''x'', Some 0)]\<rparr>"
  let ?s1 = "\<lparr>memory = [\<lparr>obj = Variable ''x'', use_count = 1\<rparr>, \<lparr>obj = Constant 7, use_count = 1\<rparr>],
          constPool = [(7, Some 1)], varPool = [(''x'', Some 0)]\<rparr>"
  let ?s2 = "\<lparr>memory = [\<lparr>obj = Variable ''x'', use_count = 1\<rparr>, \<lparr>obj = Constant 7, use_count = 2\<rparr>],
          constPool = [(7, Some 1)], varPool = [(''x'', Some 0)]\<rparr>"
  have r: "run [GetVariable ''x''] = ([0], ?s)" by (simp add: factory_eval)
  have g1: "get (ConstantKey 7) ?s = (1, ?s1)" by (simp add: factory_eval)
  have g2: "get (ConstantKey 7) ?s1 = (1, ?s2)" by (simp add: factory_eval)
  from get_twice_same_node [OF r g1 g2] have "render (Constant 7) = dec_int (sint (7 :: cint))"
    by simp
  also have "\<dots> = ''7''" by code_simp
  finally show ?thesis using r g1 g2 by simp
qed

text \<open>
  Claim C3. In every state the program can reach, \<open>use_count\<close> of a node is the number of
  owners outside the factory, so a node is alive exactly while some outside owner holds
  it, whatever the pools contain: once no outside owner is left the node is destroyed and
  every weak pointer to it, a pool entry included, is expired. And no two living nodes
  are equal: there is at most one living node per kind and key.
\<close>

theorem pool_never_owns:
  assumes "run reqs = (owners, s)"
  shows "(\<forall>a<length (memory s). use_count (memory s ! a) = count_list owners a) \<and>
         (\<forall>a. live (memory s) a = (a \<in> set owners)) \<and>
         (\<forall>a. a \<notin> set owners \<longrightarrow> expired (memory s) (Some a)) \<and>
         (\<forall>a b. live (memory s) a \<and> live (memory s) b \<and>
                obj (memory s ! a) = obj (memory s ! b) \<longrightarrow> a = b)"
proof -
  note i = run_invariants [OF assms]
  have l: "live (memory s) a = (a \<in> set owners)" for a
  proof (cases "a < length (memory s)")
    case True
    with i(2) show ?thesis by (rule owners_inv_live)
  next
    case False
    with i(2) show ?thesis unfolding owners_inv_def live_def by auto
  qed
  from i(2) have "\<forall>a<length (memory s). use_count (memory s ! a) = count_list owners a"
    by (simp add: owners_inv_def)
  moreover have "\<forall>a. a \<notin> set owners \<longrightarrow> expired (memory s) (Some a)"
    by (simp add: expired_def l)
  moreover have "\<forall>a b. live (memory s) a \<and> live (memory s) b \<and>
                obj (memory s ! a) = obj (memory s ! b) \<longrightarrow> a = b"
    using live_unique [OF i(1)] by blast
  ultimately show ?thesis using l by blast
qed

theorem pool_never_owns_witness:
  "run [GetConstant 7, GetVariable ''x'', Release 0] =
     ([1], \<lparr>memory = [\<lparr>obj = Constant 7, use_count = 0\<rparr>, \<lparr>obj = Variable ''x'', use_count = 1\<rparr>],
            constPool = [(7, Some 0)], varPool = [(''x'', Some 1)]\<rparr>) \<and>
   live [\<lparr>obj = Constant 7, use_count = 0\<rparr>, \<lparr>obj = Variable ''x'', use_count = 1\<rparr>] 1 \<and>
   0 \<notin> set [1 :: nat] \<and>
   expired [\<lparr>obj = Constant 7, use_count = 0\<rparr>, \<lparr>obj = Variable ''x'', use_count = 1\<rparr>] (Some 0)"
proof -
  let ?s = "\<lparr>memory = [\<lparr>obj = Constant 7, use_count = 0\<rparr>, \<lparr>obj = Variable ''x'', use_count = 1\<rparr>],
            constPool = [(7, Some 0)], varPool = [(''x'', Some 1)]\<rparr>"
  have r: "run [GetConstant 7, GetVariable ''x'', Release 0] = ([1], ?s)"
    by (simp add: factory_eval)
  from pool_never_owns [OF r] have "live (memory ?s) 1" "expired (memory ?s) (Some 0)"
    by simp_all
  with r show ?thesis by simp
qed

text \<open>
  Claim C5. When the only outside owner of the pooled node of a key is released, the node
  is dead from then on; after any further requests that do not ask for this key (each
  \<open>get\<close> among them prunes its pool), the next \<open>get\<close> for the key constructs a new node,
  distinct from the old one, with one owner, and the entry of the key names the new node.
\<close>

theorem get_after_last_release:
  assumes "run reqs = (owners, s)" "count_list owners a = 1" "obj (memory s ! a) = node_of key"
    and "get_request key \<notin> set others"
    and "run_from (owners, s) (Release a # others) = (owners1, s1)"
    and "get key s1 = (a', s2)"
  shows "pool_entry s key = Some (Some a) \<and> \<not> live (memory s1) a \<and>
         a' \<noteq> a \<and> a' = length (memory s1) \<and>
         memory s2 = memory s1 @ [\<lparr>obj = node_of key, use_count = 1\<rparr>] \<and>
         pool_entry s2 key = Some (Some a') \<and> live (memory s2) a'"
proof -
  note i = run_invariants [OF assms(1)]
  from assms(2) have ain: "a \<in> set owners" using count_list_0_iff [of owners a] by simp
  with i(2) have alt: "a < length (memory s)" unfolding owners_inv_def by blast
  with i(2) ain have alive: "live (memory s) a" by (simp add: owners_inv_live)
  from i(2) alt assms(2) have uc: "use_count (memory s ! a) = 1" by (simp add: owners_inv_def)
  have entry: "pool_entry s key = Some (Some a)"
  proof (cases key)
    case (ConstantKey v)
    from i(1) have "pool_inv Constant (memory s) (constPool s)" by (simp add: factory_inv_def)
    with alt alive assms(3) show ?thesis unfolding pool_inv_def ConstantKey by simp
  next
    case (VariableKey n)
    from i(1) have "pool_inv Variable (memory s) (varPool s)" by (simp add: factory_inv_def)
    with alt alive assms(3) show ?thesis unfolding pool_inv_def VariableKey by simp
  qed
  define c1 where "c1 = step (owners, s) (Release a)"
  have c: "c1 = (remove1 a owners, s\<lparr>memory := release a (memory s)\<rparr>)"
    using ain by (simp add: c1_def)
  have ci: "client_inv c1" unfolding c1_def
    by (rule client_inv_step) (simp add: client_inv_def i)
  have absent: "obj (memory (snd c1) ! b) \<noteq> node_of key" if "live (memory (snd c1)) b" for b
  proof
    assume e: "obj (memory (snd c1) ! b) = node_of key"
    from that have lb: "live (release a (memory s)) b" by (simp add: c)
    then have "live (memory s) b" by (rule live_release)
    moreover from e have "obj (memory s ! b) = obj (memory s ! a)" by (simp add: c assms(3))
    ultimately have "b = a" using alive by (intro live_unique [OF i(1)])
    with lb alt uc show False by (simp add: live_def use_count_release)
  qed
  have r: "run_from c1 others = (owners1, s1)"
    using assms(5) unfolding c1_def by (simp only: run_from_Cons)
  then have s1: "s1 = snd (run_from c1 others)" by simp
  have i1: "client_inv (run_from c1 others)" using ci by (rule client_inv_run_from)
  then have f1: "factory_inv s1" by (simp add: client_inv_def r)
  have absent1: "obj (memory s1 ! b) \<noteq> node_of key" if "live (memory s1) b" for b
    using absent_run_from [OF ci absent assms(4)] that unfolding s1 by blast
  have m0: "length (memory (snd c1)) = length (memory s)"
    "obj (memory (snd c1) ! a) = obj (memory s ! a)" by (simp_all add: c)
  from run_from_memory [of c1 others]
  have "length (memory (snd c1)) \<le> length (memory s1)"
    "\<forall>b<length (memory (snd c1)). obj (memory s1 ! b) = obj (memory (snd c1) ! b)"
    by (simp_all add: r)
  with m0 alt assms(3)
  have mono: "length (memory s) \<le> length (memory s1)" "obj (memory s1 ! a) = node_of key"
    by simp_all
  from absent1 [of a] mono(2) have dead: "\<not> live (memory s1) a" by blast
  note n = get_no_live_node [OF f1 absent1 assms(6)]
  note g = get_result [OF assms(6)]
  from n(1) alt mono(1) have "a' \<noteq> a" by simp
  with entry dead n g(1,2) show ?thesis by simp
qed

theorem get_after_last_release_witness:
  "run [GetConstant 7, GetVariable ''x''] =
     ([1, 0], \<lparr>memory = [\<lparr>obj = Constant 7, use_count = 1\<rparr>, \<lparr>obj = Variable ''x'', use_count = 1\<rparr>],
               constPool = [(7, Some 0)], varPool = [(''x'', Some 1)]\<rparr>) \<and>
   count_list [1, 0] (0 :: nat) = 1 \<and>
   get_request (ConstantKey 7) \<notin> set [GetVariable ''x''] \<and>
   run_from ([1, 0], \<lparr>memory = [\<lparr>obj = Constant 7, use_count = 1\<rparr>, \<lparr>obj = Variable ''x'', use_count = 1\<rparr>],
                      constPool = [(7, Some 0)], varPool = [(''x'', Some 1)]\<rparr>)
            [Release 0, GetVariable ''x''] =
     ([1, 1], \<lparr>memory = [\<lparr>obj = Constant 7, use_count = 0\<rparr>, \<lparr>obj = Variable ''x'', use_count = 2\<rparr>],
               constPool = [(7, Some 0)], varPool = [(''x'', Some 1)]\<rparr>) \<and>
   get (ConstantKey 7)
       \<lparr>memory = [\<lparr>obj = Constant 7, use_count = 0\<rparr>, \<lparr>obj = Variable ''x'', use_count = 2\<rparr>],
        constPool = [(7, Some 0)], varPool = [(''x'', Some 1)]\<rparr> =
     (2, \<lparr>memory = [\<lparr>obj = Constant 7, use_count = 0\<rparr>, \<lparr>obj = Variable ''x'', use_count = 2\<rparr>,
                    \<lparr>obj = Constant 7, use_count = 1\<rparr>],
          constPool = [(7, Some 2)], varPool = [(''x'', Some 1)]\<rparr>) \<and>
   (2 :: nat) \<noteq> 0"
proof -
  let ?s = "\<lparr>memory = [\<lparr>obj = Constant 7, use_count = 1\<rparr>, \<lparr>obj = Variable ''x'', use_count = 1\<rparr>],
               constPool = [(7, Some 0)], varPool = [(''x'', Some 1)]\<rparr>"
  let ?s1 = "\<lparr>memory = [\<lparr>obj = Constant 7, use_count = 0\<rparr>, \<lparr>obj = Variable ''x'', use_count = 2\<rparr>],
               constPool = [(7, Some 0)], varPool = [(''x'', Some 1)]\<rparr>"
  let ?s2 = "\<lparr>memory = [\<lparr>obj = Constant 7, use_count = 0\<rparr>, \<lparr>obj = Variable ''x'', use_count = 2\<rparr>,
                    \<lparr>obj = Constant 7, use_count = 1\<rparr>],
          constPool = [(7, Some 2)], varPool = [(''x'', Some 1)]\<rparr>"
  have r: "run [GetConstant 7, GetVariable ''x''] = ([1, 0], ?s)" by (simp add: factory_eval)
  have c: "count_list [1, 0] (0 :: nat) = 1" by simp
  have o: "obj (memory ?s ! 0) = node_of (ConstantKey 7)" by simp
  have n: "get_request (ConstantKey 7) \<notin> set [GetVariable ''x'']" by simp
  have r1: "run_from ([1, 0], ?s) [Release 0, GetVariable ''x''] = ([1, 1], ?s1)"
    by (simp add: factory_eval)
  have g: "get (ConstantKey 7) ?s1 = (2, ?s2)" by (simp add: factory_eval)
  from get_after_last_release [OF r c o n r1 g] have "(2 :: nat) \<noteq> 0" by simp
  with r c n r1 g show ?thesis by simp
qed

text \<open>
  Claim C6. \<open>prune\<close> removes exactly the entries whose weak pointer is expired, and an
  expired weak pointer never locks. \<open>get\<close> prunes the pool of its kind first, so when it
  returns in a state the program can reach, every entry left in that pool names a living
  node, and the node returned is alive and is the node of the key asked for.
\<close>

theorem prune_before_get:
  assumes "run reqs = (owners, s)" "get key s = (a, s')"
  shows "set (prune m pool) = {e \<in> set pool. \<not> expired m (snd e)} \<and>
         (expired m wp \<longrightarrow> lock wp m = (None, m)) \<and>
         (\<forall>wp \<in> set (pool_entries s' key). \<not> expired (memory s') wp) \<and>
         live (memory s') a \<and> obj (memory s' ! a) = node_of key"
proof -
  have "set (prune m pool) = {e \<in> set pool. \<not> expired m (snd e)}"
    by (auto simp: prune_filter)
  moreover have "expired m wp \<longrightarrow> lock wp m = (None, m)" by (simp add: lock_def)
  moreover note get_result(2,3) [OF assms(2)]
    get_obj [OF run_invariants(1) [OF assms(1)] assms(2)]
  ultimately show ?thesis by blast
qed

theorem prune_before_get_witness:
  "run [GetConstant 7, GetConstant 8, Release 0] =
     ([1], \<lparr>memory = [\<lparr>obj = Constant 7, use_count = 0\<rparr>, \<lparr>obj = Constant 8, use_count = 1\<rparr>],
            constPool = [(7, Some 0), (8, Some 1)], varPool = []\<rparr>) \<and>
   get (ConstantKey 9)
       \<lparr>memory = [\<lparr>obj = Constant 7, use_count = 0\<rparr>, \<lparr>obj = Constant 8, use_count = 1\<rparr>],
        constPool = [(7, Some 0), (8, Some 1)], varPool = []\<rparr> =
     (2, \<lparr>memory = [\<lparr>obj = Constant 7, use_count = 0\<rparr>, \<lparr>obj = Constant 8, use_count = 1\<rparr>,
                    \<lparr>obj = Constant 9, use_count = 1\<rparr>],
          constPool = [(8, Some 1), (9, Some 2)], varPool = []\<rparr>) \<and>
   expired [\<lparr>obj = Constant 7, use_count = 0\<rparr>, \<lparr>obj = Constant 8, use_count = 1\<rparr>] (Some 0) \<and>
   lock (Some 0) [\<lparr>obj = Constant 7, use_count = 0\<rparr>, \<lparr>obj = Constant 8, use_count = 1\<rparr>] =
     (None, [\<lparr>obj = Constant 7, use_count = 0\<rparr>, \<lparr>obj = Constant 8, use_count = 1\<rparr>]) \<and>
   set (prune [\<lparr>obj = Constant 7, use_count = 0\<rparr>, \<lparr>obj = Constant 8, use_count = 1\<rparr>]
              [(7 :: cint, Some 0), (8, Some 1)]) = {(8, Some 1)}"
proof -
  let ?m = "[\<lparr>obj = Constant 7, use_count = 0\<rparr>, \<lparr>obj = Constant 8, use_count = 1\<rparr>]"
  let ?s = "\<lparr>memory = ?m, constPool = [(7, Some 0), (8, Some 1)], varPool = []\<rparr>"
  let ?s1 = "\<lparr>memory = [\<lparr>obj = Constant 7, use_count = 0\<rparr>, \<lparr>obj = Constant 8, use_count = 1\<rparr>,
                    \<lparr>obj = Constant 9, use_count = 1\<rparr>],
          constPool = [(8, Some 1), (9, Some 2)], varPool = []\<rparr>"
  have r: "run [GetConstant 7, GetConstant 8, Release 0] = ([1], ?s)" by (simp add: factory_eval)
  have g: "get (ConstantKey 9) ?s = (2, ?s1)" by (simp add: factory_eval)
  have e: "expired ?m (Some 0)" by (simp add: factory_eval)
  note t = prune_before_get [OF r g, of ?m "[(7 :: cint, Some 0), (8, Some 1)]" "Some 0"]
  from t e have "lock (Some 0) ?m = (None, ?m)" by blast
  moreover from t have "set (prune ?m [(7 :: cint, Some 0), (8, Some 1)]) = {(8, Some 1)}"
    by (auto simp: factory_eval)
  ultimately show ?thesis using r g e by simp
qed

end
